theory Spec2Isabelle
  imports Complex_Main "HOL-Library.Multiset"
begin

section \<open>Paths: the parts of Go's path/filepath and strings that the code calls\<close>

text \<open>
  The repository calls \<^verbatim>\<open>filepath.Clean\<close>, \<^verbatim>\<open>filepath.Join\<close>, \<^verbatim>\<open>filepath.Dir\<close>,
  \<^verbatim>\<open>filepath.Rel\<close> and \<^verbatim>\<open>strings.Contains\<close> of the Go standard library (Unix
  flavour: the separator is the slash, there are no volume names). They are modelled
  here by their documented rules, on paths split into their elements:
  \<^item> Clean replaces runs of separators by one, drops every \<^verbatim>\<open>.\<close> element, drops an
    inner \<^verbatim>\<open>..\<close> together with the element before it, drops a \<^verbatim>\<open>..\<close> that
    begins a rooted path, and returns \<^verbatim>\<open>.\<close> for an empty result;
  \<^item> Join joins the elements from the first non-empty one on with separators and
    cleans the result (the empty string when every element is empty);
  \<^item> Dir cleans what precedes the last element.
  A path is a \<open>string\<close>: a list of bytes, as a Go string is.
\<close>

definition Separator :: char where
  "Separator = CHR ''/''"

fun split_sep :: "string \<Rightarrow> string list" where
  "split_sep [] = [[]]"
| "split_sep (c # cs) =
     (if c = Separator then [] # split_sep cs
      else (case split_sep cs of [] \<Rightarrow> [[c]] | s # ss \<Rightarrow> (c # s) # ss))"

fun join_sep :: "string list \<Rightarrow> string" where
  "join_sep [] = []"
| "join_sep [s] = s"
| "join_sep (s # t # ss) = s @ Separator # join_sep (t # ss)"

text \<open>
  One element of the path read by Clean; \<open>out\<close> holds the elements kept so far, the
  last one first. A \<^verbatim>\<open>..\<close> removes the element before it, unless there is none or
  it is a leading \<^verbatim>\<open>..\<close> itself: then it is kept on a relative path and dropped
  on a rooted one.
\<close>

fun clean_elem :: "bool \<Rightarrow> string \<Rightarrow> string list \<Rightarrow> string list" where
  "clean_elem rooted e out =
     (if e = [] \<or> e = ''.'' then out
      else if e = ''..'' then
        (case out of
           [] \<Rightarrow> if rooted then [] else [''..'']
         | t # ts \<Rightarrow> if t = ''..'' then ''..'' # out else ts)
      else e # out)"

definition clean_elems :: "bool \<Rightarrow> string list \<Rightarrow> string list \<Rightarrow> string list" where
  "clean_elems rooted es out = fold (clean_elem rooted) es out"

definition render :: "bool \<Rightarrow> string list \<Rightarrow> string" where
  "render rooted out =
     (if rooted then Separator # join_sep (rev out)
      else if out = [] then ''.'' else join_sep (rev out))"

definition is_rooted :: "string \<Rightarrow> bool" where
  "is_rooted path = (case path of [] \<Rightarrow> False | c # _ \<Rightarrow> c = Separator)"

definition Clean :: "string \<Rightarrow> string" where
  "Clean path =
     (if path = [] then ''.''
      else render (is_rooted path) (clean_elems (is_rooted path) (split_sep path) []))"

definition Join :: "string list \<Rightarrow> string" where
  "Join elem =
     (case dropWhile (\<lambda>e. e = []) elem of
        [] \<Rightarrow> []
      | e # es \<Rightarrow> Clean (join_sep (e # es)))"

text \<open>
  \<^verbatim>\<open>filepath.Rel\<close>: both paths are cleaned; equal paths give \<^verbatim>\<open>.\<close>; a rooted and
  a relative path cannot be related; otherwise the common leading elements are dropped,
  and the result goes up once for every element left of the base (which must not be
  \<^verbatim>\<open>..\<close>) and then down the elements left of the target.
\<close>

definition path_elems :: "string \<Rightarrow> string list" where
  "path_elems p =
     (let q = (if is_rooted p then tl p else p) in if q = [] then [] else split_sep q)"

fun drop_common :: "string list \<Rightarrow> string list \<Rightarrow> string list \<times> string list" where
  "drop_common (b # bs) (t # ts) = (if b = t then drop_common bs ts else (b # bs, t # ts))"
| "drop_common bs ts = (bs, ts)"

definition Rel :: "string \<Rightarrow> string \<Rightarrow> string + string" where
  "Rel basepath targpath =
     (let base = Clean basepath; targ = Clean targpath
      in if targ = base then Inr ''.''
         else
           (let base' = (if base = ''.'' then [] else base)
            in if is_rooted base' \<noteq> is_rooted targ
               then Inl (''Rel: can't make '' @ targpath @ '' relative to '' @ basepath)
               else
                 (case drop_common (path_elems base') (path_elems targ) of
                    ([], ts) \<Rightarrow> Inr (join_sep ts)
                  | (b # bs, ts) \<Rightarrow>
                      if b = ''..''
                      then Inl (''Rel: can't make '' @ targpath @ '' relative to '' @ basepath)
                      else Inr (join_sep (replicate (length (b # bs)) ''..'' @ ts)))))"

text \<open>\<^verbatim>\<open>filepath.Dir\<close>: the path up to and including its last separator, cleaned.\<close>

definition Dir :: "string \<Rightarrow> string" where
  "Dir path = Clean (rev (dropWhile (\<lambda>c. c \<noteq> Separator) (rev path)))"

text \<open>\<^verbatim>\<open>strings.HasPrefix\<close> and \<^verbatim>\<open>strings.Contains\<close>.\<close>

fun HasPrefix :: "string \<Rightarrow> string \<Rightarrow> bool" where
  "HasPrefix s [] = True"
| "HasPrefix [] (p # ps) = False"
| "HasPrefix (c # cs) (p # ps) = (c = p \<and> HasPrefix cs ps)"

fun Contains :: "string \<Rightarrow> string \<Rightarrow> bool" where
  "Contains [] substr = (substr = [])"
| "Contains (c # cs) substr = (HasPrefix (c # cs) substr \<or> Contains cs substr)"

text \<open>Decimal digits of a number, for the \<^verbatim>\<open>%d\<close> of \<^verbatim>\<open>fmt\<close>.\<close>

fun decimal_nat :: "nat \<Rightarrow> string" where
  "decimal_nat n =
     (if n < 10 then [''0123456789'' ! n]
      else decimal_nat (n div 10) @ [''0123456789'' ! (n mod 10)])"

definition decimal :: "int \<Rightarrow> string" where
  "decimal i = (if i < 0 then CHR ''-'' # decimal_nat (nat (- i)) else decimal_nat (nat i))"

section \<open>Integrity verifier (pkg/hash)\<close>

text \<open>
  A reader (\<^verbatim>\<open>io.Reader\<close>) is the bytes it still has to deliver and what it reports
  once they are exhausted: the end of the stream, or an error. The digest functions of
  \<^verbatim>\<open>crypto/md5\<close> and \<^verbatim>\<open>crypto/sha256\<close> are parameters.
\<close>

record Reader =
  unread :: string
  failure :: "string option"

record Digests =
  md5_sum :: "string \<Rightarrow> string"
  sha256_sum :: "string \<Rightarrow> string"

type_synonym HashType = string

definition MD5 :: HashType where "MD5 = ''md5''"
definition SHA256 :: HashType where "SHA256 = ''sha256''"

record FileHash =
  Algorithm :: HashType
  Value :: string

record Hasher =
  hashType :: HashType

definition NewHasher :: "HashType \<Rightarrow> Hasher" where
  "NewHasher t = \<lparr>hashType = t\<rparr>"

definition DefaultHasher :: Hasher where
  "DefaultHasher = NewHasher SHA256"

text \<open>\<^verbatim>\<open>fmt.Sprintf("%x", ...)\<close>: two lower-case hexadecimal digits for every byte.\<close>

definition hex :: "string \<Rightarrow> string" where
  "hex bytes =
     concat (map (\<lambda>c. [''0123456789abcdef'' ! (of_char c div 16),
                         ''0123456789abcdef'' ! (of_char c mod 16)]) bytes)"

text \<open>
  \<^verbatim>\<open>HashReader\<close>. The result comes with the reader as the call leaves it:
  \<^verbatim>\<open>io.Copy\<close> consumes every byte the reader has.
\<close>

definition HashReader :: "Digests \<Rightarrow> Hasher \<Rightarrow> Reader \<Rightarrow> (string + FileHash) \<times> Reader" where
  "HashReader crypto h reader =
     (if hashType h \<noteq> MD5 \<and> hashType h \<noteq> SHA256
      then (Inl (''unsupported hash type: '' @ hashType h), reader)
      else
        (case failure reader of
           Some err \<Rightarrow> (Inl (''failed to calculate hash: '' @ err), reader\<lparr>unread := []\<rparr>)
         | None \<Rightarrow>
             (Inr \<lparr>Algorithm = hashType h,
                   Value = hex ((if hashType h = MD5 then md5_sum crypto else sha256_sum crypto)
                                  (unread reader))\<rparr>,
              reader\<lparr>unread := []\<rparr>)))"

text \<open>\<^verbatim>\<open>VerifyReader\<close>: the pair of the boolean and the error, and the reader.\<close>

definition VerifyReader ::
  "Digests \<Rightarrow> Hasher \<Rightarrow> Reader \<Rightarrow> FileHash \<Rightarrow> (bool \<times> string option) \<times> Reader" where
  "VerifyReader crypto h reader expectedHash =
     (if Algorithm expectedHash \<noteq> hashType h
      then ((False, Some (''hash algorithm mismatch: expected '' @ Algorithm expectedHash
                            @ '', got '' @ hashType h)), reader)
      else
        (case HashReader crypto h reader of
           (Inl err, reader') \<Rightarrow> ((False, Some err), reader')
         | (Inr actualHash, reader') \<Rightarrow>
             ((Value actualHash = Value expectedHash, None), reader')))"

section \<open>The file system seen by the directory walk, and the archive stream\<close>

text \<open>
  A node of a directory tree, as \<^verbatim>\<open>filepath.Walk\<close> meets it:
  \<^item> a regular file, with its bytes, mode bits and modification time;
  \<^item> a directory, with its entries in the order of the sorted listing;
  \<^item> an entry that is neither (a symbolic link, a pipe, a device): the size, mode and
    time that \<^verbatim>\<open>Lstat\<close> reports, and what opening and reading it gives;
  \<^item> a path whose \<^verbatim>\<open>Lstat\<close> fails, and a directory whose listing fails.
\<close>

datatype fnode =
    RegularFile string int int
  | Directory "(string \<times> fnode) list"
  | Irregular int int int "string + string"
  | NoStat string
  | NoList string

record FileInfo =
  IsDir :: bool
  info_Size :: int
  info_Mode :: int
  info_ModTime :: int

text \<open>What \<^verbatim>\<open>Lstat\<close> reports of a node (with \<open>NoStat\<close> there is no \<^verbatim>\<open>FileInfo\<close>).\<close>

fun lstat :: "fnode \<Rightarrow> FileInfo" where
  "lstat (RegularFile bytes mode mtime) =
     \<lparr>IsDir = False, info_Size = int (length bytes), info_Mode = mode, info_ModTime = mtime\<rparr>"
| "lstat (Directory entries) =
     \<lparr>IsDir = True, info_Size = 0, info_Mode = 0, info_ModTime = 0\<rparr>"
| "lstat (Irregular sz mode mtime data) =
     \<lparr>IsDir = False, info_Size = sz, info_Mode = mode, info_ModTime = mtime\<rparr>"
| "lstat (NoStat err) =
     \<lparr>IsDir = False, info_Size = 0, info_Mode = 0, info_ModTime = 0\<rparr>"
| "lstat (NoList err) =
     \<lparr>IsDir = True, info_Size = 0, info_Mode = 0, info_ModTime = 0\<rparr>"

text \<open>What \<^verbatim>\<open>os.Open\<close> followed by reading to the end gives.\<close>

fun read_node :: "fnode \<Rightarrow> string + string" where
  "read_node (RegularFile bytes mode mtime) = Inr bytes"
| "read_node (Irregular sz mode mtime data) = data"
| "read_node (Directory entries) = Inl ''is a directory''"
| "read_node (NoStat err) = Inl err"
| "read_node (NoList err) = Inl ''is a directory''"

text \<open>
  \<^verbatim>\<open>filepath.Walk\<close> with the callback \<open>fn\<close>, which gets the path, the
  \<^verbatim>\<open>FileInfo\<close>, the node (for the callbacks that open the file) and the error of the
  walk, and returns its own error and its state. The root is visited first, then the
  entries in order, each under the path joined with its name; the first error a
  callback returns ends the walk.
\<close>

type_synonym 'a WalkFunc = "string \<Rightarrow> FileInfo \<Rightarrow> fnode \<Rightarrow> string option \<Rightarrow> 'a \<Rightarrow> string option \<times> 'a"

fun Walk :: "'a WalkFunc \<Rightarrow> string \<Rightarrow> fnode \<Rightarrow> 'a \<Rightarrow> string option \<times> 'a"
  and walk_entries :: "'a WalkFunc \<Rightarrow> string \<Rightarrow> (string \<times> fnode) list \<Rightarrow> 'a \<Rightarrow> string option \<times> 'a"
where
  "Walk fn path (Directory entries) st =
     (case fn path (lstat (Directory entries)) (Directory entries) None st of
        (Some err, st') \<Rightarrow> (Some err, st')
      | (None, st') \<Rightarrow> walk_entries fn path entries st')"
| "Walk fn path (NoStat err) st = fn path (lstat (NoStat err)) (NoStat err) (Some err) st"
| "Walk fn path (NoList err) st = fn path (lstat (NoList err)) (NoList err) (Some err) st"
| "Walk fn path (RegularFile bytes mode mtime) st =
     fn path (lstat (RegularFile bytes mode mtime)) (RegularFile bytes mode mtime) None st"
| "Walk fn path (Irregular sz mode mtime data) st =
     fn path (lstat (Irregular sz mode mtime data)) (Irregular sz mode mtime data) None st"
| "walk_entries fn path [] st = (None, st)"
| "walk_entries fn path ((name, node) # entries) st =
     (case Walk fn (Join [path, name]) node st of
        (Some err, st') \<Rightarrow> (Some err, st')
      | (None, st') \<Rightarrow> walk_entries fn path entries st')"

text \<open>
  The archive: a \<^verbatim>\<open>tar\<close> header carries the name, the size, the mode and the
  modification time. What the reader of the stream gets is a sequence of entries, each
  with its header, the payload bytes that arrive and the error (if any) that ends the
  payload early, and then the end of the archive or an error in place of a header.
  The compression is transparent: \<^verbatim>\<open>gzip\<close> gives back the bytes it was given.
\<close>

record Header =
  Name :: string
  Size :: int
  Mode :: int
  ModTime :: int

record tar_entry =
  header :: Header
  payload :: string
  payload_error :: "string option"

text \<open>
  The state of the \<^verbatim>\<open>tar.Writer\<close>: the entries written, and how many payload bytes
  the last header still waits for. \<^verbatim>\<open>WriteHeader\<close> fails while bytes are missing;
  a payload longer than the header says is cut and fails with "write too long".
\<close>

record tar_writer =
  written :: "tar_entry list"
  missing :: int

definition WriteHeader :: "Header \<Rightarrow> tar_writer \<Rightarrow> string option \<times> tar_writer" where
  "WriteHeader hdr tw =
     (if missing tw > 0 then (Some ''archive/tar: missed writing bytes'', tw)
      else if Size hdr < 0 then (Some ''archive/tar: invalid tar header'', tw)
      else (None, \<lparr>written = written tw @ [\<lparr>header = hdr, payload = [], payload_error = None\<rparr>],
                   missing = Size hdr\<rparr>))"

definition write_payload :: "string \<Rightarrow> tar_writer \<Rightarrow> string option \<times> tar_writer" where
  "write_payload bytes tw =
     (let n = nat (missing tw);
          es = written tw;
          es' = (if es = [] then []
                 else butlast es @ [(last es)\<lparr>payload := payload (last es) @ take n bytes\<rparr>])
      in (if length bytes > n then Some ''archive/tar: write too long'' else None,
          \<lparr>written = es', missing = missing tw - int (length (take n bytes))\<rparr>))"

text \<open>
  The calls that change the local file system, in the order they are made. Whether a
  call fails, and with which message, is decided by the environment \<open>io\<close>.
\<close>

datatype fs_call =
    MkdirAll string
  | Create string
  | CopyTo string string
  | HashFile string
  | Chmod string int
  | Chtimes string int

type_synonym io_env = "fs_call \<Rightarrow> string option"

text \<open>
  The callback of \<^verbatim>\<open>handleDirectoryDownload\<close>: an error of the walk is returned,
  a directory is skipped, and every other entry becomes a header (named by the path
  relative to the root of the walk) followed by the bytes read from the file.
\<close>

definition archive_entry :: "string \<Rightarrow> tar_writer WalkFunc" where
  "archive_entry fullPath path info node err tw =
     (case err of
        Some e \<Rightarrow> (Some e, tw)
      | None \<Rightarrow>
          if IsDir info then (None, tw)
          else
            (case Rel fullPath path of
               Inl e \<Rightarrow> (Some e, tw)
             | Inr relPath \<Rightarrow>
                 (case WriteHeader \<lparr>Name = relPath, Size = info_Size info,
                                    Mode = info_Mode info, ModTime = info_ModTime info\<rparr> tw of
                    (Some e, tw') \<Rightarrow> (Some e, tw')
                  | (None, tw') \<Rightarrow>
                      (case read_node node of
                         Inl e \<Rightarrow> (Some e, tw')
                       | Inr bytes \<Rightarrow> write_payload bytes tw'))))"

text \<open>
  What the client receives when the handler has returned and the deferred
  \<^verbatim>\<open>tarWriter.Close()\<close> and \<^verbatim>\<open>gzipWriter.Close()\<close> have run: the entries written;
  when the last header still waits for bytes, \<^verbatim>\<open>Close\<close> fails, and the reader meets
  the end of the stream inside the last payload.
\<close>

definition response_body :: "tar_writer \<Rightarrow> tar_entry list \<times> string option" where
  "response_body tw =
     (if missing tw > 0 \<and> written tw \<noteq> []
      then (butlast (written tw) @ [(last (written tw))\<lparr>payload_error := Some ''unexpected EOF''\<rparr>],
            None)
      else (written tw, None))"

text \<open>
  \<^verbatim>\<open>handleDirectoryDownload\<close>: the walk over the directory at \<open>fullPath\<close>, writing
  to a fresh archive. The result is the error that the handler logs (if any) and the
  body of the response.
\<close>

definition handleDirectoryDownload ::
  "string \<Rightarrow> fnode \<Rightarrow> string option \<times> tar_entry list \<times> string option" where
  "handleDirectoryDownload fullPath tree =
     (case Walk (archive_entry fullPath) fullPath tree \<lparr>written = [], missing = 0\<rparr> of
        (err, tw) \<Rightarrow> (err, response_body tw))"

text \<open>
  For the statement of the round trip. A name that a directory entry can have; the
  trees that consist of directories and regular files, with valid names that are
  distinct within each directory; the regular files of a tree in the order of the walk,
  each with the names on the way to it and its bytes; and the paths that Clean returns,
  as lists of elements, the last one first: valid names above leading \<^verbatim>\<open>..\<close>
  elements, which a rooted path does not have.
\<close>

definition valid_name :: "string \<Rightarrow> bool" where
  "valid_name n = (n \<noteq> [] \<and> Separator \<notin> set n \<and> n \<noteq> ''.'' \<and> n \<noteq> ''..'')"

fun regular_tree :: "fnode \<Rightarrow> bool"
  and regular_entries :: "(string \<times> fnode) list \<Rightarrow> bool"
where
  "regular_tree (Directory entries) = regular_entries entries"
| "regular_tree (RegularFile bytes mode mtime) = True"
| "regular_tree (Irregular sz mode mtime data) = False"
| "regular_tree (NoStat err) = False"
| "regular_tree (NoList err) = False"
| "regular_entries [] = True"
| "regular_entries ((name, node) # entries) =
     (valid_name name \<and> name \<notin> fst ` set entries \<and> regular_tree node
      \<and> regular_entries entries)"

fun tree_files :: "fnode \<Rightarrow> (string list \<times> string \<times> int \<times> int) list"
  and entries_files :: "(string \<times> fnode) list \<Rightarrow> (string list \<times> string \<times> int \<times> int) list"
where
  "tree_files (Directory entries) = entries_files entries"
| "tree_files (RegularFile bytes mode mtime) = [([], bytes, mode, mtime)]"
| "tree_files (Irregular sz mode mtime data) = []"
| "tree_files (NoStat err) = []"
| "tree_files (NoList err) = []"
| "entries_files [] = []"
| "entries_files ((name, node) # entries) =
     map (\<lambda>(names, file). (name # names, file)) (tree_files node) @ entries_files entries"

text \<open>The archive entry of a regular file.\<close>

definition archived :: "string list \<times> string \<times> int \<times> int \<Rightarrow> tar_entry" where
  "archived f =
     (case f of (names, bytes, mode, mtime) \<Rightarrow>
        \<lparr>header = \<lparr>Name = join_sep names, Size = int (length bytes), Mode = mode,
                    ModTime = mtime\<rparr>,
         payload = bytes, payload_error = None\<rparr>)"

fun clean_stack :: "bool \<Rightarrow> string list \<Rightarrow> bool" where
  "clean_stack rooted [] = True"
| "clean_stack rooted (e # out) =
     (if e = ''..'' then \<not> rooted \<and> list_all (\<lambda>x. x = ''..'') out
      else valid_name e \<and> clean_stack rooted out)"

section \<open>The client (pkg/client)\<close>

record ClientConfig =
  ServerURL :: string
  Timeout :: int
  Concurrency :: nat

record TransferProgress =
  TotalFiles :: int
  ProcessedFiles :: int
  TotalSize :: int
  ProcessedSize :: int
  CurrentFile :: string

text \<open>\<^verbatim>\<open>collectFiles\<close>: the paths of all entries of the walk that are not directories.\<close>

definition collect_entry :: "string list WalkFunc" where
  "collect_entry path info node err files =
     (case err of
        Some e \<Rightarrow> (Some e, files)
      | None \<Rightarrow> if \<not> IsDir info then (None, files @ [path]) else (None, files))"

definition collectFiles :: "string \<Rightarrow> fnode \<Rightarrow> string list \<times> string option" where
  "collectFiles dir tree = (case Walk collect_entry dir tree [] of (err, files) \<Rightarrow> (files, err))"

subsection \<open>The folder upload and its worker tasks\<close>

text \<open>
  What the dispatcher does not decide: the sizes \<^verbatim>\<open>os.Stat\<close> reports (\<open>None\<close> when it
  fails) and the outcome of \<^verbatim>\<open>UploadFile\<close> for a local and a remote path (\<open>None\<close>
  when it succeeds).
\<close>

record upload_env =
  stat_size :: "string \<Rightarrow> int option"
  UploadFile :: "string \<Rightarrow> string \<Rightarrow> string option"

text \<open>
  Where the calling goroutine is: at the head of the loop with the files still to
  dispatch; after \<^verbatim>\<open>wg.Add(1)\<close>, at the send on the semaphore channel; after the
  send, at the \<^verbatim>\<open>go\<close> statement; at \<^verbatim>\<open>wg.Wait()\<close>; returned, with the error.
\<close>

datatype main_pc =
    Dispatch "string list"
  | Acquire string "string list"
  | Spawn string "string list"
  | Wait
  | Returned "string option"

text \<open>
  Where a worker goroutine is: launched; in \<^verbatim>\<open>UploadFile\<close> (the per-file transfer is
  under way) with the relative path; before the critical section that records its
  error; before the critical section that counts its success; before the deferred
  receive from the semaphore channel; before the deferred \<^verbatim>\<open>wg.Done()\<close>.
\<close>

datatype task_pc =
    Launched
  | Uploading string
  | Failing string
  | Succeeded string
  | Releasing
  | Finishing

text \<open>
  The state of one call of \<^verbatim>\<open>UploadFolder\<close>. \<open>sem\<close> is the number of tokens in the
  channel, \<open>wg\<close> the counter of the wait group. \<open>observed\<close> lists what the progress
  callback was given. \<open>entered\<close> is a history variable, not a variable of the program:
  the files in the order in which their workers went through a critical section, each
  with the error it came with.
\<close>

record dispatcher =
  main :: main_pc
  sem :: nat
  wg :: nat
  tasks :: "(string \<times> task_pc) list"
  uploadErr :: "string option"
  progress :: TransferProgress
  observed :: "TransferProgress list"
  entered :: "(string \<times> string option) list"

text \<open>The beginning of \<^verbatim>\<open>UploadFolder\<close>, up to the loop that starts the workers.\<close>

definition total_size :: "upload_env \<Rightarrow> string list \<Rightarrow> int" where
  "total_size env files =
     sum_list (map (\<lambda>file. case stat_size env file of None \<Rightarrow> 0 | Some n \<Rightarrow> n) files)"

definition UploadFolder_begin :: "upload_env \<Rightarrow> string \<Rightarrow> fnode \<Rightarrow> dispatcher" where
  "UploadFolder_begin env localPath tree =
     (let idle = \<lparr>main = Wait, sem = 0, wg = 0, tasks = [], uploadErr = None,
                  progress = \<lparr>TotalFiles = 0, ProcessedFiles = 0, TotalSize = 0,
                              ProcessedSize = 0, CurrentFile = []\<rparr>,
                  observed = [], entered = []\<rparr>
      in case collectFiles localPath tree of
           (files, Some err) \<Rightarrow> idle\<lparr>main := Returned (Some (''failed to collect files: '' @ err))\<rparr>
         | (files, None) \<Rightarrow>
             if length files = 0
             then idle\<lparr>main := Returned (Some (''no files found in directory: '' @ localPath))\<rparr>
             else idle\<lparr>main := Dispatch files,
                       progress := (progress idle)\<lparr>TotalFiles := int (length files),
                                                   TotalSize := total_size env files\<rparr>\<rparr>)"

text \<open>
  One step of one goroutine. \<open>MainStep\<close> is the next statement of the caller; it is
  not enabled while the send has no free slot (\<open>sem\<close> has reached the capacity \<open>K\<close>)
  and while \<^verbatim>\<open>wg.Wait()\<close> has workers to wait for. \<open>TaskStep i\<close> is the next statement
  of the \<open>i\<close>-th live worker; a critical section (between \<^verbatim>\<open>mu.Lock()\<close> and
  \<^verbatim>\<open>mu.Unlock()\<close>) is one step. A step that is not enabled leaves the state as it is.
\<close>

datatype action = MainStep | TaskStep nat

fun main_enabled :: "nat \<Rightarrow> dispatcher \<Rightarrow> bool" where
  "main_enabled K s =
     (case main s of
        Dispatch files \<Rightarrow> True
      | Acquire fp files \<Rightarrow> sem s < K
      | Spawn fp files \<Rightarrow> True
      | Wait \<Rightarrow> wg s = 0
      | Returned r \<Rightarrow> False)"

fun enabled :: "nat \<Rightarrow> action \<Rightarrow> dispatcher \<Rightarrow> bool" where
  "enabled K MainStep s = main_enabled K s"
| "enabled K (TaskStep i) s =
     (i < length (tasks s) \<and> (snd (tasks s ! i) = Releasing \<longrightarrow> 0 < sem s))"

definition main_step :: "dispatcher \<Rightarrow> dispatcher" where
  "main_step s =
     (case main s of
        Dispatch [] \<Rightarrow> s\<lparr>main := Wait\<rparr>
      | Dispatch (filePath # files) \<Rightarrow> s\<lparr>main := Acquire filePath files, wg := wg s + 1\<rparr>
      | Acquire filePath files \<Rightarrow> s\<lparr>main := Spawn filePath files, sem := sem s + 1\<rparr>
      | Spawn filePath files \<Rightarrow>
          s\<lparr>main := Dispatch files, tasks := tasks s @ [(filePath, Launched)]\<rparr>
      | Wait \<Rightarrow> s\<lparr>main := Returned (uploadErr s)\<rparr>
      | Returned r \<Rightarrow> s)"

definition task_step ::
  "upload_env \<Rightarrow> string \<Rightarrow> string \<Rightarrow> nat \<Rightarrow> dispatcher \<Rightarrow> dispatcher" where
  "task_step env localPath remotePath i s =
     (case tasks s ! i of
        (fp, Launched) \<Rightarrow>
          (case Rel localPath fp of
             Inl err \<Rightarrow>
               s\<lparr>tasks := (tasks s)
                     [i := (fp, Failing (''failed to get relative path for '' @ fp @ '': '' @ err))]\<rparr>
           | Inr relPath \<Rightarrow> s\<lparr>tasks := (tasks s)[i := (fp, Uploading relPath)]\<rparr>)
      | (fp, Uploading relPath) \<Rightarrow>
          (case UploadFile env fp (Join [remotePath, relPath]) of
             Some err \<Rightarrow>
               s\<lparr>tasks := (tasks s)
                     [i := (fp, Failing (''failed to upload '' @ fp @ '': '' @ err))]\<rparr>
           | None \<Rightarrow> s\<lparr>tasks := (tasks s)[i := (fp, Succeeded relPath)]\<rparr>)
      | (fp, Failing err) \<Rightarrow>
          s\<lparr>uploadErr := (if uploadErr s = None then Some err else uploadErr s),
            entered := entered s @ [(fp, Some err)],
            tasks := (tasks s)[i := (fp, Releasing)]\<rparr>
      | (fp, Succeeded relPath) \<Rightarrow>
          (let p = progress s;
               p1 = p\<lparr>ProcessedFiles := ProcessedFiles p + 1\<rparr>;
               p2 = (case stat_size env fp of
                       None \<Rightarrow> p1
                     | Some n \<Rightarrow> p1\<lparr>ProcessedSize := ProcessedSize p1 + n\<rparr>);
               p3 = p2\<lparr>CurrentFile := relPath\<rparr>
           in s\<lparr>progress := p3, observed := observed s @ [p3],
                entered := entered s @ [(fp, None)],
                tasks := (tasks s)[i := (fp, Releasing)]\<rparr>)
      | (fp, Releasing) \<Rightarrow> s\<lparr>sem := sem s - 1, tasks := (tasks s)[i := (fp, Finishing)]\<rparr>
      | (fp, Finishing) \<Rightarrow>
          s\<lparr>wg := wg s - 1, tasks := take i (tasks s) @ drop (Suc i) (tasks s)\<rparr>)"

definition step ::
  "nat \<Rightarrow> upload_env \<Rightarrow> string \<Rightarrow> string \<Rightarrow> action \<Rightarrow> dispatcher \<Rightarrow> dispatcher" where
  "step K env localPath remotePath a s =
     (if \<not> enabled K a s then s
      else (case a of
              MainStep \<Rightarrow> main_step s
            | TaskStep i \<Rightarrow> task_step env localPath remotePath i s))"

definition run ::
  "nat \<Rightarrow> upload_env \<Rightarrow> string \<Rightarrow> string \<Rightarrow> action list \<Rightarrow> dispatcher \<Rightarrow> dispatcher" where
  "run K env localPath remotePath schedule s =
     fold (step K env localPath remotePath) schedule s"

text \<open>The per-file transfers under way, and the workers that hold a slot of the semaphore.\<close>

definition active_transfers :: "dispatcher \<Rightarrow> nat" where
  "active_transfers s = length (filter (\<lambda>(fp, pc). case pc of Uploading r \<Rightarrow> True | _ \<Rightarrow> False) (tasks s))"

definition holds_slot :: "task_pc \<Rightarrow> bool" where
  "holds_slot pc = (pc \<noteq> Finishing)"

text \<open>
  For the statements about the dispatcher. The files the caller has still to hand to a
  worker; whether a worker has been through its critical section; the error with which
  the worker of a file ends (\<open>None\<close> when the file is uploaded); the first error among
  those that came to a critical section.
\<close>

fun pending :: "main_pc \<Rightarrow> string list" where
  "pending (Dispatch files) = files"
| "pending (Acquire fp files) = fp # files"
| "pending (Spawn fp files) = fp # files"
| "pending Wait = []"
| "pending (Returned r) = []"

fun before_critical :: "task_pc \<Rightarrow> bool" where
  "before_critical Releasing = False"
| "before_critical Finishing = False"
| "before_critical pc = True"

definition task_result :: "upload_env \<Rightarrow> string \<Rightarrow> string \<Rightarrow> string \<Rightarrow> string option" where
  "task_result env localPath remotePath fp =
     (case Rel localPath fp of
        Inl err \<Rightarrow> Some (''failed to get relative path for '' @ fp @ '': '' @ err)
      | Inr relPath \<Rightarrow>
          (case UploadFile env fp (Join [remotePath, relPath]) of
             Some err \<Rightarrow> Some (''failed to upload '' @ fp @ '': '' @ err)
           | None \<Rightarrow> None))"

fun pc_ok :: "upload_env \<Rightarrow> string \<Rightarrow> string \<Rightarrow> string \<Rightarrow> task_pc \<Rightarrow> bool" where
  "pc_ok env localPath remotePath fp (Uploading relPath) = (Rel localPath fp = Inr relPath)"
| "pc_ok env localPath remotePath fp (Failing err) =
     (task_result env localPath remotePath fp = Some err)"
| "pc_ok env localPath remotePath fp (Succeeded relPath) =
     (task_result env localPath remotePath fp = None)"
| "pc_ok env localPath remotePath fp pc = True"

definition first_error :: "(string \<times> string option) list \<Rightarrow> string option" where
  "first_error es =
     (case filter (\<lambda>r. r \<noteq> None) (map snd es) of [] \<Rightarrow> None | r # _ \<Rightarrow> r)"

text \<open>
  The semaphore and the wait group: the tokens in the channel are the workers that have
  not yet received from it, and one more while the caller stands between its send and
  its \<^verbatim>\<open>go\<close> statement; they never exceed the capacity. The wait group counts the
  live workers, and one more from \<^verbatim>\<open>wg.Add(1)\<close> to the \<^verbatim>\<open>go\<close> statement.
\<close>

definition slots_inv :: "nat \<Rightarrow> dispatcher \<Rightarrow> bool" where
  "slots_inv K s =
     (sem s = length (filter (\<lambda>t. holds_slot (snd t)) (tasks s))
                + (case main s of Spawn fp files \<Rightarrow> 1 | _ \<Rightarrow> 0)
      \<and> sem s \<le> K
      \<and> wg s = length (tasks s)
                + (case main s of Acquire fp files \<Rightarrow> 1 | Spawn fp files \<Rightarrow> 1 | _ \<Rightarrow> 0)
      \<and> (case main s of Returned r \<Rightarrow> tasks s = [] | _ \<Rightarrow> True))"

text \<open>
  The accounting of the files: every file of the list is still with the caller, or with
  a worker that has not reached its critical section, or has been through one; what
  came to a critical section is the result of the worker; the error slot holds the first
  error that came; the processed count is the number of successes that came; the error
  returned is the error slot.
\<close>

definition account_inv ::
  "upload_env \<Rightarrow> string \<Rightarrow> string \<Rightarrow> string list \<Rightarrow> dispatcher \<Rightarrow> bool" where
  "account_inv env localPath remotePath files s =
     (mset files = mset (pending (main s))
                   + mset (map fst (filter (\<lambda>t. before_critical (snd t)) (tasks s)))
                   + mset (map fst (entered s))
      \<and> list_all (\<lambda>t. pc_ok env localPath remotePath (fst t) (snd t)) (tasks s)
      \<and> list_all (\<lambda>t. snd t = task_result env localPath remotePath (fst t)) (entered s)
      \<and> uploadErr s = first_error (entered s)
      \<and> TransferProgress.ProcessedFiles (progress s)
          = int (length (filter (\<lambda>t. snd t = None) (entered s)))
      \<and> (case main s of Returned r \<Rightarrow> r = uploadErr s | _ \<Rightarrow> True))"

text \<open>A bound on the number of steps that are left.\<close>

fun main_weight :: "main_pc \<Rightarrow> nat" where
  "main_weight (Dispatch files) = 2 + 8 * length files"
| "main_weight (Acquire fp files) = 2 + 8 * length files + 7"
| "main_weight (Spawn fp files) = 2 + 8 * length files + 6"
| "main_weight Wait = 1"
| "main_weight (Returned r) = 0"

fun task_weight :: "task_pc \<Rightarrow> nat" where
  "task_weight Launched = 5"
| "task_weight (Uploading relPath) = 4"
| "task_weight (Failing err) = 3"
| "task_weight (Succeeded relPath) = 3"
| "task_weight Releasing = 2"
| "task_weight Finishing = 1"

definition weight :: "dispatcher \<Rightarrow> nat" where
  "weight s = main_weight (main s) + sum_list (map (\<lambda>t. task_weight (snd t)) (tasks s))"

text \<open>
  Trees that the walk goes through without an error and in which it meets directories
  only; and the number of regular files of a tree.
\<close>

fun only_directories :: "fnode \<Rightarrow> bool"
  and only_directories_list :: "(string \<times> fnode) list \<Rightarrow> bool"
where
  "only_directories (Directory entries) = only_directories_list entries"
| "only_directories (RegularFile bytes mode mtime) = False"
| "only_directories (Irregular sz mode mtime data) = False"
| "only_directories (NoStat err) = False"
| "only_directories (NoList err) = False"
| "only_directories_list [] = True"
| "only_directories_list ((name, node) # entries) =
     (only_directories node \<and> only_directories_list entries)"

fun count_regular :: "fnode \<Rightarrow> nat"
  and count_regular_list :: "(string \<times> fnode) list \<Rightarrow> nat"
where
  "count_regular (Directory entries) = count_regular_list entries"
| "count_regular (RegularFile bytes mode mtime) = 1"
| "count_regular (Irregular sz mode mtime data) = 0"
| "count_regular (NoStat err) = 0"
| "count_regular (NoList err) = 0"
| "count_regular_list [] = 0"
| "count_regular_list ((name, node) # entries) =
     count_regular node + count_regular_list entries"

subsection \<open>The folder download: decoding the archive\<close>

text \<open>
  A file on the local disk: its bytes, and the mode and modification time when they
  have been set from the archive (\<open>None\<close>: what the system gave the new file).
\<close>

record local_file =
  content :: string
  perm :: "int option"
  mtime :: "int option"

text \<open>
  The state of \<^verbatim>\<open>DownloadFolder\<close>: the progress, the files written, what the progress
  callback was given, and the warnings logged.
\<close>

record download =
  received :: TransferProgress
  disk :: "string \<rightharpoonup> local_file"
  reported :: "TransferProgress list"
  warnings :: "string list"

text \<open>
  One round of the loop of \<^verbatim>\<open>DownloadFolder\<close>, for the entry that
  \<^verbatim>\<open>tarReader.Next()\<close> has returned: the result is the error the function returns
  with, or none when the loop goes on. \<^verbatim>\<open>io.Copy\<close> fails when the write fails (then
  no byte is taken as written) or when the payload ends with an error (then the bytes
  that arrived are in the file). A failure of \<^verbatim>\<open>os.Chmod\<close> or \<^verbatim>\<open>os.Chtimes\<close> is
  logged as a warning.
\<close>

definition extract_entry ::
  "io_env \<Rightarrow> string \<Rightarrow> tar_entry \<Rightarrow> download \<Rightarrow> string option \<times> download" where
  "extract_entry io localPath entry st =
     (let hdr = header entry;
          filePath = Join [localPath, Name hdr];
          dir = Dir filePath
      in case io (MkdirAll dir) of
           Some err \<Rightarrow> (Some (''failed to create directory '' @ dir @ '': '' @ err), st)
         | None \<Rightarrow>
             (case io (Create filePath) of
                Some err \<Rightarrow> (Some (''failed to create file '' @ filePath @ '': '' @ err), st)
              | None \<Rightarrow>
                  (case io (CopyTo filePath (payload entry)) of
                     Some err \<Rightarrow>
                       (Some (''failed to write file '' @ filePath @ '': '' @ err),
                        st\<lparr>disk := (disk st)
                              (filePath \<mapsto> \<lparr>content = [], perm = None, mtime = None\<rparr>)\<rparr>)
                   | None \<Rightarrow>
                       (let st1 = st\<lparr>disk := (disk st)
                                     (filePath \<mapsto> \<lparr>content = payload entry,
                                                   perm = None, mtime = None\<rparr>)\<rparr>
                        in case payload_error entry of
                             Some err \<Rightarrow>
                               (Some (''failed to write file '' @ filePath @ '': '' @ err), st1)
                           | None \<Rightarrow>
                               (let written = int (length (payload entry));
                                    st2 = (case io (Chmod filePath (Mode hdr)) of
                                             Some err \<Rightarrow>
                                               st1\<lparr>warnings := warnings st1 @
                                                 [''Failed to set permissions for '' @ filePath
                                                  @ '': '' @ err]\<rparr>
                                           | None \<Rightarrow>
                                               st1\<lparr>disk := (disk st1)
                                                 (filePath \<mapsto> \<lparr>content = payload entry,
                                                    perm = Some (Mode hdr), mtime = None\<rparr>)\<rparr>);
                                    st3 = (case io (Chtimes filePath (ModTime hdr)) of
                                             Some err \<Rightarrow>
                                               st2\<lparr>warnings := warnings st2 @
                                                 [''Failed to set modification time for ''
                                                  @ filePath @ '': '' @ err]\<rparr>
                                           | None \<Rightarrow>
                                               st2\<lparr>disk := (disk st2)
                                                 (filePath \<mapsto>
                                                    (the (disk st2 filePath))
                                                      \<lparr>mtime := Some (ModTime hdr)\<rparr>)\<rparr>);
                                    p = received st3;
                                    p' = p\<lparr>ProcessedFiles := ProcessedFiles p + 1,
                                           ProcessedSize := ProcessedSize p + written,
                                           CurrentFile := Name hdr\<rparr>
                                in (None, st3\<lparr>received := p', reported := reported st3 @ [p']\<rparr>))))))"

text \<open>
  The loop over the entries of the archive; \<open>end_error\<close> is what \<^verbatim>\<open>Next\<close> returns
  after the last entry: the end of the archive (\<open>None\<close>) or an error.
\<close>

fun extract_entries ::
  "io_env \<Rightarrow> string \<Rightarrow> tar_entry list \<Rightarrow> string option \<Rightarrow> download
     \<Rightarrow> string option \<times> download" where
  "extract_entries io localPath [] end_error st =
     (case end_error of
        None \<Rightarrow> (None, st)
      | Some err \<Rightarrow> (Some (''failed to read tar header: '' @ err), st))"
| "extract_entries io localPath (entry # entries) end_error st =
     (case extract_entry io localPath entry st of
        (Some err, st') \<Rightarrow> (Some err, st')
      | (None, st') \<Rightarrow> extract_entries io localPath entries end_error st')"

text \<open>
  The answer to the download request: the error of \<^verbatim>\<open>http.Get\<close>, or the status
  code with the text of the body and, once unzipped (which may fail), the archive.
\<close>

record http_response =
  StatusCode :: int
  body_text :: string
  body_archive :: "string + tar_entry list \<times> string option"

definition empty_download :: download where
  "empty_download =
     \<lparr>received = \<lparr>TotalFiles = 0, ProcessedFiles = 0, TotalSize = 0, ProcessedSize = 0,
                   CurrentFile = []\<rparr>,
      disk = Map.empty, reported = [], warnings = []\<rparr>"

definition DownloadFolder ::
  "ClientConfig \<Rightarrow> io_env \<Rightarrow> (string \<Rightarrow> string + http_response) \<Rightarrow> string \<Rightarrow> string
     \<Rightarrow> string option \<times> download" where
  "DownloadFolder config io http_Get remotePath localPath =
     (case io (MkdirAll localPath) of
        Some err \<Rightarrow> (Some (''failed to create local directory: '' @ err), empty_download)
      | None \<Rightarrow>
          (case http_Get (ServerURL config @ ''/api/download?path='' @ remotePath) of
             Inl err \<Rightarrow> (Some (''failed to download folder: '' @ err), empty_download)
           | Inr resp \<Rightarrow>
               if StatusCode resp \<noteq> 200
               then (Some (''download failed with status '' @ decimal (StatusCode resp)
                            @ '': '' @ body_text resp), empty_download)
               else
                 (case body_archive resp of
                    Inl err \<Rightarrow> (Some (''failed to create gzip reader: '' @ err), empty_download)
                  | Inr (entries, end_error) \<Rightarrow>
                      extract_entries io localPath entries end_error empty_download)))"

text \<open>
  The error with which an entry ends the decoding (it does not depend on the state),
  and the environment in which restoring modes and times never fails and everything
  else is as in \<open>io\<close>.
\<close>

definition entry_error :: "io_env \<Rightarrow> string \<Rightarrow> tar_entry \<Rightarrow> string option" where
  "entry_error io localPath entry = fst (extract_entry io localPath entry empty_download)"

definition restoring :: "io_env \<Rightarrow> io_env" where
  "restoring io call =
     (case call of Chmod path mode \<Rightarrow> None | Chtimes path t \<Rightarrow> None | _ \<Rightarrow> io call)"

text \<open>The path and the file that decoding the entry of a regular file leaves.\<close>

definition restored :: "string \<Rightarrow> string list \<times> string \<times> int \<times> int \<Rightarrow> string \<times> local_file" where
  "restored localPath f =
     (case f of (names, bytes, mode, modified) \<Rightarrow>
        (Join [localPath, join_sep names],
         \<lparr>content = bytes, perm = Some mode, mtime = Some modified\<rparr>))"

section \<open>The server: path sanitizer and download dispatch (pkg/server/server.go)\<close>

record ServerConfig =
  StoragePath :: string
  MaxFileSize :: int

datatype http_error =
    MethodNotAllowed
  | PathRequired
  | InvalidPath
  | NotFound
  | InternalServerError

text \<open>
  The path sanitizer of \<^verbatim>\<open>handleDownload\<close> (and, with the same two lines, of
  \<^verbatim>\<open>handleList\<close>): the request path is cleaned, and refused with "Invalid path"
  when the cleaned path contains two dots in a row.
\<close>

definition sanitize :: "string \<Rightarrow> http_error + string" where
  "sanitize path =
     (let cleanPath = Clean path
      in if Contains cleanPath ''..'' then Inl InvalidPath else Inr cleanPath)"

datatype stat_result = NotExist | StatFailed string | IsDirectory | IsFile

datatype download_route =
    Refused http_error
  | DirectoryDownload string string
  | FileDownload string string

text \<open>
  \<^verbatim>\<open>handleDownload\<close>, up to the choice of the handler that streams the answer. The
  result of \<^verbatim>\<open>os.Stat\<close> is a parameter.
\<close>

definition handleDownload ::
  "ServerConfig \<Rightarrow> (string \<Rightarrow> stat_result) \<Rightarrow> string \<Rightarrow> string \<Rightarrow> download_route" where
  "handleDownload config stat method path =
     (if method \<noteq> ''GET'' then Refused MethodNotAllowed
      else if path = [] then Refused PathRequired
      else
        (case sanitize path of
           Inl e \<Rightarrow> Refused e
         | Inr cleanPath \<Rightarrow>
             (let fullPath = Join [StoragePath config, cleanPath]
              in case stat fullPath of
                   NotExist \<Rightarrow> Refused NotFound
                 | StatFailed e \<Rightarrow> Refused InternalServerError
                 | IsDirectory \<Rightarrow> DirectoryDownload fullPath cleanPath
                 | IsFile \<Rightarrow> FileDownload fullPath cleanPath)))"

section \<open>The server: uploads and the transfer registry (pkg/server/server.go)\<close>

text \<open>
  Byte counts are Go's \<^verbatim>\<open>int64\<close> and file counts Go's \<^verbatim>\<open>int\<close>; both are
  \<open>int\<close> here, without the wrap-around, which no statement below depends on. The
  progress is a \<^verbatim>\<open>float64\<close> quotient of two counts, modelled by the quotient in
  \<open>real\<close>. Times are nanoseconds since the epoch.
\<close>

record TransferStatus =
  ID :: string
  Type :: string
  Status :: string
  Progress :: real
  TotalFiles :: int
  ProcessedFiles :: int
  TotalSize :: int
  ProcessedSize :: int
  StartTime :: int
  EndTime :: "int option"
  Error :: string

text \<open>
  A file part of the parsed multipart form (\<^verbatim>\<open>multipart.FileHeader\<close>): the file name
  the client sent, the declared size, and what \<^verbatim>\<open>Open\<close> gives: an error or the
  bytes of the part.
\<close>

record FileHeader =
  Filename :: string
  Size :: int
  Open :: "string + string"

record Form =
  Value :: "string \<Rightarrow> string list"
  File :: "string \<Rightarrow> FileHeader list"

definition processUploadedFile ::
  "ServerConfig \<Rightarrow> io_env \<Rightarrow> FileHeader \<Rightarrow> TransferStatus
     \<Rightarrow> string option \<times> TransferStatus \<times> fs_call list" where
  "processUploadedFile config io fileHeader status =
     (case Open fileHeader of
        Inl e \<Rightarrow> (Some (''failed to open uploaded file: '' @ e), status, [])
      | Inr file \<Rightarrow>
          (let destPath = Join [StoragePath config, Filename fileHeader];
               destDir = Dir destPath
           in case io (MkdirAll destDir) of
                Some e \<Rightarrow>
                  (Some (''failed to create directory: '' @ e), status, [MkdirAll destDir])
              | None \<Rightarrow>
                  (case io (Create destPath) of
                     Some e \<Rightarrow>
                       (Some (''failed to create destination file: '' @ e), status,
                        [MkdirAll destDir, Create destPath])
                   | None \<Rightarrow>
                       (case io (CopyTo destPath file) of
                          Some e \<Rightarrow>
                            (Some (''failed to copy file: '' @ e), status,
                             [MkdirAll destDir, Create destPath, CopyTo destPath file])
                        | None \<Rightarrow>
                            (None,
                             status\<lparr>ProcessedSize := ProcessedSize status + int (length file)\<rparr>,
                             [MkdirAll destDir, Create destPath, CopyTo destPath file,
                              HashFile destPath])))))"

text \<open>
  The loop of \<^verbatim>\<open>processUpload\<close> over the file parts; \<open>i\<close> is the loop index. The
  first failing file sets "failed" and the error message and returns; when the list
  is exhausted the state becomes "completed".
\<close>

fun processUpload_files ::
  "ServerConfig \<Rightarrow> io_env \<Rightarrow> FileHeader list \<Rightarrow> int \<Rightarrow> TransferStatus \<times> fs_call list
     \<Rightarrow> TransferStatus \<times> fs_call list" where
  "processUpload_files config io [] i (status, calls) =
     (status\<lparr>Status := ''completed''\<rparr>, calls)"
| "processUpload_files config io (fileHeader # files) i (status, calls) =
     (case processUploadedFile config io fileHeader status of
        (Some err, status', made) \<Rightarrow>
          (status'\<lparr>Status := ''failed'', Error := err\<rparr>, calls @ made)
      | (None, status', made) \<Rightarrow>
          processUpload_files config io files (i + 1)
            (status'\<lparr>ProcessedFiles := i + 1,
                     Progress := real_of_int (i + 1) / real_of_int (TotalFiles status')\<rparr>,
             calls @ made))"

text \<open>
  The body of \<^verbatim>\<open>processUpload\<close> on the status record it looked up: the totals, the
  loop, and the deferred end time (\<open>now\<close> is the clock when the function returns).
\<close>

definition processUpload_status ::
  "ServerConfig \<Rightarrow> io_env \<Rightarrow> Form \<Rightarrow> int \<Rightarrow> TransferStatus
     \<Rightarrow> TransferStatus \<times> fs_call list" where
  "processUpload_status config io form now status =
     (let files = File form ''files'';
          status1 = status\<lparr>TotalFiles := int (length files)\<rparr>;
          status2 = status1\<lparr>TotalSize := TotalSize status1 + sum_list (map Size files)\<rparr>;
          (status3, calls) = processUpload_files config io files 0 (status2, [])
      in (status3\<lparr>EndTime := Some now\<rparr>, calls))"

text \<open>
  The server: its configuration, the registry \<^verbatim>\<open>transfers\<close> from transfer
  identifiers to pointers, the status records the pointers refer to (a pointer is an
  index into \<open>records\<close>; a record is allocated at the end and never freed), and the
  \<^verbatim>\<open>processUpload\<close> goroutines that \<^verbatim>\<open>handleUpload\<close> has started and that have
  not run yet, each with its arguments.
\<close>

record Server =
  config :: ServerConfig
  transfers :: "string \<rightharpoonup> nat"
  records :: "TransferStatus list"
  goroutines :: "(string \<times> Form) list"

definition NewServer :: "ServerConfig \<Rightarrow> Server" where
  "NewServer cfg = \<lparr>config = cfg, transfers = Map.empty, records = [], goroutines = []\<rparr>"

text \<open>\<^verbatim>\<open>generateTransferID\<close>; \<open>now\<close> is the reading of the clock, \<^verbatim>\<open>time.Now().UnixNano()\<close>.\<close>

definition generateTransferID :: "int \<Rightarrow> string" where
  "generateTransferID now = ''transfer_'' @ decimal now"

text \<open>The status record that \<^verbatim>\<open>handleUpload\<close> creates: every other field is zero.\<close>

definition new_upload_status :: "string \<Rightarrow> int \<Rightarrow> TransferStatus" where
  "new_upload_status transferID now =
     \<lparr>ID = transferID, Type = ''upload'', Status = ''running'', Progress = 0,
      TotalFiles = 0, ProcessedFiles = 0, TotalSize = 0, ProcessedSize = 0,
      StartTime = now, EndTime = None, Error = []\<rparr>"

datatype upload_response = Rejected http_error | BadForm | Started string

text \<open>
  \<^verbatim>\<open>handleUpload\<close>. \<open>parsed\<close> is the result of \<^verbatim>\<open>ParseMultipartForm\<close>, \<open>now_id\<close>
  and \<open>now_start\<close> are the two readings of the clock. The new record is registered
  under the identifier, replacing whatever pointer the identifier had, and the
  goroutine is started.
\<close>

definition handleUpload ::
  "string \<Rightarrow> string + Form \<Rightarrow> int \<Rightarrow> int \<Rightarrow> Server \<Rightarrow> Server \<times> upload_response" where
  "handleUpload method parsed now_id now_start s =
     (if method \<noteq> ''POST'' then (s, Rejected MethodNotAllowed)
      else
        (case parsed of
           Inl err \<Rightarrow> (s, BadForm)
         | Inr form \<Rightarrow>
             (let transferID = generateTransferID now_id;
                  status = new_upload_status transferID now_start
              in (s\<lparr>records := records s @ [status],
                    transfers := (transfers s)(transferID \<mapsto> length (records s)),
                    goroutines := goroutines s @ [(transferID, form)]\<rparr>,
                  Started transferID))))"

text \<open>
  \<^verbatim>\<open>processUpload\<close>, run from its first statement to its return: it looks the
  pointer up in the registry and works on the record the pointer refers to. An
  identifier that is not registered gives the nil pointer, and the first assignment
  through it panics: that is the result \<open>None\<close>.
\<close>

definition processUpload ::
  "io_env \<Rightarrow> string \<Rightarrow> Form \<Rightarrow> int \<Rightarrow> Server \<Rightarrow> (Server \<times> fs_call list) option" where
  "processUpload io transferID form now s =
     (case transfers s transferID of
        None \<Rightarrow> None
      | Some p \<Rightarrow>
          (let (status, calls) = processUpload_status (config s) io form now (records s ! p)
           in Some (s\<lparr>records := (records s)[p := status]\<rparr>, calls)))"

datatype status_response = StatusRejected http_error | TransferIDRequired | TransferNotFound
  | StatusJSON TransferStatus

fun TrimPrefix :: "string \<Rightarrow> string \<Rightarrow> string" where
  "TrimPrefix s prefix = (if HasPrefix s prefix then drop (length prefix) s else s)"

text \<open>\<^verbatim>\<open>handleStatus\<close>: it reads the registry and the record, and changes nothing.\<close>

definition handleStatus :: "string \<Rightarrow> string \<Rightarrow> Server \<Rightarrow> status_response" where
  "handleStatus method url_path s =
     (if method \<noteq> ''GET'' then StatusRejected MethodNotAllowed
      else
        (let transferID = TrimPrefix url_path ''/api/status/''
         in if transferID = [] then TransferIDRequired
            else (case transfers s transferID of
                    None \<Rightarrow> TransferNotFound
                  | Some p \<Rightarrow> StatusJSON (records s ! p))))"

text \<open>
  What happens at the server, one event at a time: an upload request is handled, the
  scheduler runs one of the started \<^verbatim>\<open>processUpload\<close> goroutines (the \<open>k\<close>-th of
  those waiting) to its end, under some behaviour \<open>io\<close> of the file system, or a status
  request is answered. \<open>None\<close> is the crashed server.
\<close>

datatype event =
    UploadRequest string "string + Form" int int
  | RunUpload nat io_env int
  | StatusRequest string string

fun serve :: "event \<Rightarrow> Server \<Rightarrow> Server option" where
  "serve (UploadRequest method parsed now_id now_start) s =
     Some (fst (handleUpload method parsed now_id now_start s))"
| "serve (RunUpload k io now) s =
     (if k < length (goroutines s) then
        (case goroutines s ! k of
           (transferID, form) \<Rightarrow>
             map_option fst
               (processUpload io transferID form now
                  (s\<lparr>goroutines := take k (goroutines s) @ drop (Suc k) (goroutines s)\<rparr>)))
      else Some s)"
| "serve (StatusRequest method url_path) s = Some s"

fun serve_all :: "event list \<Rightarrow> Server \<Rightarrow> Server option" where
  "serve_all [] s = Some s"
| "serve_all (e # es) s = (case serve e s of None \<Rightarrow> None | Some s' \<Rightarrow> serve_all es s')"

text \<open>The identifiers that the upload requests among the events are given.\<close>

fun upload_ids :: "event list \<Rightarrow> string list" where
  "upload_ids [] = []"
| "upload_ids (UploadRequest method parsed now_id now_start # es) =
     (if method = ''POST'' \<and> \<not> isl parsed
      then generateTransferID now_id # upload_ids es else upload_ids es)"
| "upload_ids (e # es) = upload_ids es"

text \<open>
  The error of \<^verbatim>\<open>processUploadedFile\<close> for a file part (it does not depend on the
  status record), and the terminal lifecycle states.
\<close>

definition upload_error :: "ServerConfig \<Rightarrow> io_env \<Rightarrow> FileHeader \<Rightarrow> string option" where
  "upload_error cfg io fileHeader =
     fst (processUploadedFile cfg io fileHeader (new_upload_status [] 0))"

definition terminal :: "TransferStatus \<Rightarrow> bool" where
  "terminal status = (Status status = ''completed'' \<or> Status status = ''failed'')"

text \<open>The lifecycle state of the record at pointer \<open>p\<close>, when the server has not crashed.\<close>

definition lifecycle_at :: "nat \<Rightarrow> Server option \<Rightarrow> string option" where
  "lifecycle_at p so = map_option (\<lambda>s. Status (records s ! p)) so"

text \<open>
  The upload requests among the events that are accepted, in order: the identifier each
  is given, its form and its start time.
\<close>

fun uploads :: "event list \<Rightarrow> (string \<times> Form \<times> int) list" where
  "uploads [] = []"
| "uploads (UploadRequest method parsed now_id now_start # es) =
     (if method = ''POST'' \<and> \<not> isl parsed
      then (generateTransferID now_id, projr parsed, now_start) # uploads es else uploads es)"
| "uploads (e # es) = uploads es"

text \<open>
  For the statement of the lifecycle: the file-system calls that
  \<^verbatim>\<open>processUploadedFile\<close> makes for a file part (they do not depend on the status
  record), the error of the first file part that fails, in the order of the form, and
  the file parts before the first one that fails.
\<close>

definition upload_calls :: "ServerConfig \<Rightarrow> io_env \<Rightarrow> FileHeader \<Rightarrow> fs_call list" where
  "upload_calls cfg io fileHeader =
     snd (snd (processUploadedFile cfg io fileHeader (new_upload_status [] 0)))"

fun upload_failure :: "ServerConfig \<Rightarrow> io_env \<Rightarrow> FileHeader list \<Rightarrow> string option" where
  "upload_failure cfg io [] = None"
| "upload_failure cfg io (fileHeader # files) =
     (case upload_error cfg io fileHeader of
        Some err \<Rightarrow> Some err
      | None \<Rightarrow> upload_failure cfg io files)"

definition stored_parts :: "ServerConfig \<Rightarrow> io_env \<Rightarrow> FileHeader list \<Rightarrow> FileHeader list" where
  "stored_parts cfg io files = takeWhile (\<lambda>fileHeader. upload_error cfg io fileHeader = None) files"

text \<open>
  What holds of the server as long as no identifier is given out twice; \<open>ups\<close> are the
  accepted upload requests so far. There is one record for each request, in order; the
  identifier of a request is registered with the record of that request; the pending
  goroutines belong to requests, no two of them to the same one; and the record of a
  request is as it was created while the goroutine of the request is pending, and is
  what \<^verbatim>\<open>processUpload\<close> made of it, from the file parts of that request, afterwards.
\<close>

definition ledger_inv :: "ServerConfig \<Rightarrow> (string \<times> Form \<times> int) list \<Rightarrow> Server \<Rightarrow> bool" where
  "ledger_inv cfg ups s =
     (config s = cfg \<and> length (records s) = length ups
      \<and> distinct (map fst (goroutines s))
      \<and> (\<forall>g \<in> set (goroutines s). \<exists>u \<in> set ups. fst u = fst g \<and> fst (snd u) = snd g)
      \<and> (\<forall>p < length ups.
            transfers s (fst (ups ! p)) = Some p
            \<and> (if fst (ups ! p) \<in> fst ` set (goroutines s)
               then records s ! p = new_upload_status (fst (ups ! p)) (snd (snd (ups ! p)))
               else \<exists>io now. records s ! p =
                      fst (processUpload_status cfg io (fst (snd (ups ! p))) now
                             (new_upload_status (fst (ups ! p)) (snd (snd (ups ! p))))))))"

section \<open>Path sanitizer: the inputs of the specification\<close>

lemma Clean_examples:
  "Clean ''abc//def//ghi'' = ''abc/def/ghi''"
  "Clean ''abc/def/../../..'' = ''..''"
  "Clean ''/abc/def/../../..'' = ''/''"
  "Clean ''abc/def/../../../ghi/jkl/../../../mno'' = ''../../mno''"
  "Clean ''/../abc'' = ''/abc''"
  "Clean '''' = ''.''"
  "Clean ''abc/'' = ''abc''"
  by (simp_all add: Clean_def render_def is_rooted_def clean_elems_def Separator_def)

text \<open>
  C5: the sanitizer refuses \<^verbatim>\<open>../../etc/passwd\<close>, \<^verbatim>\<open>a/../../b\<close> and
  \<^verbatim>\<open>a/b/../../..\<close> with the "Invalid path" error, and accepts \<^verbatim>\<open>a/./b\<close>, which it
  maps to the clean relative path \<^verbatim>\<open>a/b\<close>; the download handler refuses the first
  three requests whatever the storage root and the file system are.
\<close>

theorem sanitize_spec_inputs:
  "sanitize ''../../etc/passwd'' = Inl InvalidPath
   \<and> sanitize ''a/../../b'' = Inl InvalidPath
   \<and> sanitize ''a/b/../../..'' = Inl InvalidPath
   \<and> sanitize ''a/./b'' = Inr ''a/b''
   \<and> handleDownload cfg stat ''GET'' ''../../etc/passwd'' = Refused InvalidPath
   \<and> handleDownload cfg stat ''GET'' ''a/../../b'' = Refused InvalidPath
   \<and> handleDownload cfg stat ''GET'' ''a/b/../../..'' = Refused InvalidPath"
  by (simp add: handleDownload_def sanitize_def Clean_def render_def is_rooted_def
      clean_elems_def Separator_def)

section \<open>Uploads: the destination path\<close>

text \<open>
  C1 asks that the destination of every uploaded file be sanitized before any I/O, as
  the download path is. \<^verbatim>\<open>processUploadedFile\<close> joins the storage root and the file
  name of the part and goes on to the file system with the result: with the root
  \<^verbatim>\<open>.\<close> and the name \<^verbatim>\<open>..\<close> the directory is made and the file created at
  \<^verbatim>\<open>..\<close>, and with the root \<^verbatim>\<open>uploads\<close> and the name \<^verbatim>\<open>../../etc/passwd\<close> the
  file is written to \<^verbatim>\<open>../etc/passwd\<close>, outside the root; the sanitizer of the
  download path refuses both names.
\<close>

theorem upload_destination_unsanitized:
  "processUploadedFile \<lparr>StoragePath = ''.'', MaxFileSize = m\<rparr> (\<lambda>c. None)
     \<lparr>Filename = ''..'', Size = 4, Open = Inr ''data''\<rparr> status
   = (None, status\<lparr>ProcessedSize := ProcessedSize status + 4\<rparr>,
      [MkdirAll ''.'', Create ''..'', CopyTo ''..'' ''data'', HashFile ''..''])
  \<and> processUploadedFile \<lparr>StoragePath = ''uploads'', MaxFileSize = m\<rparr> (\<lambda>c. None)
     \<lparr>Filename = ''../../etc/passwd'', Size = 4, Open = Inr ''data''\<rparr> status
   = (None, status\<lparr>ProcessedSize := ProcessedSize status + 4\<rparr>,
      [MkdirAll ''../etc'', Create ''../etc/passwd'', CopyTo ''../etc/passwd'' ''data'',
       HashFile ''../etc/passwd''])
  \<and> sanitize ''..'' = Inl InvalidPath
  \<and> sanitize ''../../etc/passwd'' = Inl InvalidPath"
  by (simp add: processUploadedFile_def sanitize_def Join_def Dir_def Clean_def render_def
      is_rooted_def clean_elems_def Separator_def Let_def)

section \<open>Uploads: the lifecycle of a status record\<close>

lemma upload_error_indep:
  "fst (processUploadedFile cfg io fh st) = upload_error cfg io fh"
  by (simp add: processUploadedFile_def upload_error_def Let_def split: sum.splits option.splits)

lemma processUploadedFile_Status:
  "Status (fst (snd (processUploadedFile cfg io fh st))) = Status st"
  by (simp add: processUploadedFile_def Let_def split: sum.splits option.splits)

lemma processUpload_files_Status:
  "Status (fst (processUpload_files cfg io files i (st, calls))) =
     (if \<forall>fh \<in> set files. upload_error cfg io fh = None then ''completed'' else ''failed'')"
proof (induction files arbitrary: i st calls)
  case Nil
  then show ?case by simp
next
  case (Cons fh files)
  obtain e st' made where r: "processUploadedFile cfg io fh st = (e, st', made)"
    by (cases "processUploadedFile cfg io fh st") auto
  have e: "e = upload_error cfg io fh"
    using upload_error_indep [of cfg io fh st] r by simp
  show ?case
  proof (cases e)
    case None
    then show ?thesis using r e Cons.IH by simp
  next
    case (Some err)
    then show ?thesis using r e by auto
  qed
qed

lemma processUpload_status_Status:
  "Status (fst (processUpload_status cfg io form now st)) =
     (if \<forall>fh \<in> set (File form ''files''). upload_error cfg io fh = None
      then ''completed'' else ''failed'')"
proof -
  obtain st3 calls where r: "processUpload_files cfg io (File form ''files'') 0
      (st\<lparr>TotalFiles := int (length (File form ''files'')),
          TotalSize := TotalSize st + sum_list (map Size (File form ''files''))\<rparr>, []) = (st3, calls)"
    by (meson surj_pair)
  have "Status st3 = (if \<forall>fh \<in> set (File form ''files''). upload_error cfg io fh = None
      then ''completed'' else ''failed'')"
    using processUpload_files_Status [of cfg io "File form ''files''" 0 _ "[]"] r
    by (metis fst_conv)
  then show ?thesis
    using r by (simp add: processUpload_status_def Let_def)
qed


lemma processUpload_status_new:
  "File form ''files'' = [] \<Longrightarrow>
   processUpload_status cfg io form now (new_upload_status tid t) =
     (new_upload_status tid t\<lparr>Status := ''completed'', EndTime := Some now\<rparr>, [])"
  by (simp add: processUpload_status_def new_upload_status_def)

lemma serve_all_append:
  "serve_all (evs @ evs') s = (case serve_all evs s of None \<Rightarrow> None | Some s' \<Rightarrow> serve_all evs' s')"
  by (induction evs arbitrary: s) (auto split: option.splits)

lemma upload_ids_append: "upload_ids (evs @ evs') = upload_ids evs @ upload_ids evs'"
  by (induction evs rule: upload_ids.induct) auto

lemma upload_calls_indep:
  "snd (snd (processUploadedFile cfg io fh st)) = upload_calls cfg io fh"
  by (simp add: processUploadedFile_def upload_calls_def Let_def split: sum.splits option.splits)

lemma processUploadedFile_kept:
  "Error (fst (snd (processUploadedFile cfg io fh st))) = Error st
   \<and> TransferStatus.ProcessedFiles (fst (snd (processUploadedFile cfg io fh st)))
       = TransferStatus.ProcessedFiles st"
  by (simp add: processUploadedFile_def Let_def split: sum.splits option.splits)

lemma processUpload_files_outcome:
  "Status (fst (processUpload_files cfg io files i (st, calls)))
     = (case upload_failure cfg io files of None \<Rightarrow> ''completed'' | Some err \<Rightarrow> ''failed'')
   \<and> Error (fst (processUpload_files cfg io files i (st, calls)))
     = (case upload_failure cfg io files of None \<Rightarrow> Error st | Some err \<Rightarrow> err)
   \<and> TransferStatus.ProcessedFiles (fst (processUpload_files cfg io files i (st, calls)))
     = (if stored_parts cfg io files = [] then TransferStatus.ProcessedFiles st
        else i + int (length (stored_parts cfg io files)))
   \<and> snd (processUpload_files cfg io files i (st, calls))
     = calls @ concat (map (upload_calls cfg io)
                 (take (Suc (length (stored_parts cfg io files))) files))"
proof (induction files arbitrary: i st calls)
  case Nil
  then show ?case by (simp add: stored_parts_def)
next
  case (Cons fh files)
  obtain e st' made where r: "processUploadedFile cfg io fh st = (e, st', made)"
    by (cases "processUploadedFile cfg io fh st") auto
  have e: "e = upload_error cfg io fh"
    using upload_error_indep [of cfg io fh st] r by simp
  have m: "made = upload_calls cfg io fh"
    using upload_calls_indep [of cfg io fh st] r by simp
  have k: "Error st' = Error st" "TransferStatus.ProcessedFiles st' = TransferStatus.ProcessedFiles st"
    using processUploadedFile_kept [of cfg io fh st] r by simp_all
  show ?case
  proof (cases e)
    case None
    let ?st1 = "st'\<lparr>TransferStatus.ProcessedFiles := i + 1,
               Progress := real_of_int (i + 1) / real_of_int (TransferStatus.TotalFiles st')\<rparr>"
    let ?res = "processUpload_files cfg io files (i + 1) (?st1, calls @ made)"
    have u: "processUpload_files cfg io (fh # files) i (st, calls) = ?res"
      using r None by simp
    have f: "upload_failure cfg io (fh # files) = upload_failure cfg io files"
      using e [symmetric] None by simp
    have sp: "stored_parts cfg io (fh # files) = fh # stored_parts cfg io files"
      using e [symmetric] None by (simp add: stored_parts_def)
    have ih: "Status (fst ?res)
        = (case upload_failure cfg io files of None \<Rightarrow> ''completed'' | Some err \<Rightarrow> ''failed'')"
      "Error (fst ?res)
        = (case upload_failure cfg io files of None \<Rightarrow> Error ?st1 | Some err \<Rightarrow> err)"
      "TransferStatus.ProcessedFiles (fst ?res)
        = (if stored_parts cfg io files = [] then TransferStatus.ProcessedFiles ?st1
           else (i + 1) + int (length (stored_parts cfg io files)))"
      "snd ?res = (calls @ made) @ concat (map (upload_calls cfg io)
                 (take (Suc (length (stored_parts cfg io files))) files))"
      using Cons.IH [of "i + 1" ?st1 "calls @ made"] by blast+
    have c1: "Status (fst ?res)
        = (case upload_failure cfg io (fh # files) of
             None \<Rightarrow> ''completed'' | Some err \<Rightarrow> ''failed'')"
      unfolding f using ih(1) .
    have c2: "Error (fst ?res)
        = (case upload_failure cfg io (fh # files) of None \<Rightarrow> Error st | Some err \<Rightarrow> err)"
      unfolding f using ih(2) k(1) by (simp split: option.splits)
    have c3: "TransferStatus.ProcessedFiles (fst ?res)
        = (if stored_parts cfg io (fh # files) = [] then TransferStatus.ProcessedFiles st
           else i + int (length (stored_parts cfg io (fh # files))))"
      unfolding sp using ih(3) by simp
    have c4: "snd ?res = calls @ concat (map (upload_calls cfg io)
                 (take (Suc (length (stored_parts cfg io (fh # files)))) (fh # files)))"
      unfolding sp using ih(4) m by simp
    show ?thesis unfolding u using c1 c2 c3 c4 by (intro conjI)
  next
    case (Some err)
    have u: "processUpload_files cfg io (fh # files) i (st, calls)
        = (st'\<lparr>Status := ''failed'', Error := err\<rparr>, calls @ made)"
      using r Some by simp
    have f: "upload_failure cfg io (fh # files) = Some err"
      using e [symmetric] Some by simp
    have sp: "stored_parts cfg io (fh # files) = []"
      using e [symmetric] Some by (simp add: stored_parts_def)
    show ?thesis unfolding u f sp using k m by simp
  qed
qed

lemma processUpload_status_outcome:
  "Status (fst (processUpload_status cfg io form now (new_upload_status tid start)))
     = (case upload_failure cfg io (File form ''files'') of
          None \<Rightarrow> ''completed'' | Some err \<Rightarrow> ''failed'')
   \<and> Error (fst (processUpload_status cfg io form now (new_upload_status tid start)))
     = (case upload_failure cfg io (File form ''files'') of None \<Rightarrow> [] | Some err \<Rightarrow> err)
   \<and> TransferStatus.ProcessedFiles
        (fst (processUpload_status cfg io form now (new_upload_status tid start)))
     = int (length (stored_parts cfg io (File form ''files'')))
   \<and> snd (processUpload_status cfg io form now (new_upload_status tid start))
     = concat (map (upload_calls cfg io)
         (take (Suc (length (stored_parts cfg io (File form ''files'')))) (File form ''files'')))"
proof -
  let ?files = "File form ''files''"
  let ?st2 = "(new_upload_status tid start)\<lparr>TransferStatus.TotalFiles := int (length ?files),
      TransferStatus.TotalSize := TransferStatus.TotalSize (new_upload_status tid start)
         + sum_list (map FileHeader.Size ?files)\<rparr>"
  have z: "Error ?st2 = []" "TransferStatus.ProcessedFiles ?st2 = 0"
    by (simp_all add: new_upload_status_def)
  obtain st3 calls where r: "processUpload_files cfg io ?files 0 (?st2, []) = (st3, calls)"
    by (meson surj_pair)
  have o: "Status st3 = (case upload_failure cfg io ?files of
          None \<Rightarrow> ''completed'' | Some err \<Rightarrow> ''failed'')"
    "Error st3 = (case upload_failure cfg io ?files of None \<Rightarrow> Error ?st2 | Some err \<Rightarrow> err)"
    "TransferStatus.ProcessedFiles st3
       = (if stored_parts cfg io ?files = [] then TransferStatus.ProcessedFiles ?st2
          else 0 + int (length (stored_parts cfg io ?files)))"
    "calls = [] @ concat (map (upload_calls cfg io)
         (take (Suc (length (stored_parts cfg io ?files))) ?files))"
    using processUpload_files_outcome [of cfg io ?files 0 ?st2 "[]"] unfolding r fst_conv snd_conv
    by blast+
  have p: "processUpload_status cfg io form now (new_upload_status tid start)
      = (st3\<lparr>EndTime := Some now\<rparr>, calls)"
    using r by (simp add: processUpload_status_def Let_def)
  have c1: "Status (st3\<lparr>EndTime := Some now\<rparr>) = (case upload_failure cfg io ?files of
          None \<Rightarrow> ''completed'' | Some err \<Rightarrow> ''failed'')"
    using o(1) by simp
  have c2: "Error (st3\<lparr>EndTime := Some now\<rparr>)
      = (case upload_failure cfg io ?files of None \<Rightarrow> [] | Some err \<Rightarrow> err)"
    using o(2) unfolding z by (simp split: option.splits)
  have c3: "TransferStatus.ProcessedFiles (st3\<lparr>EndTime := Some now\<rparr>)
      = int (length (stored_parts cfg io ?files))"
    using o(3) unfolding z by simp
  have c4: "calls = concat (map (upload_calls cfg io)
         (take (Suc (length (stored_parts cfg io ?files))) ?files))"
    using o(4) by simp
  show ?thesis unfolding p fst_conv snd_conv using c1 c2 c3 c4 by (intro conjI)
qed

lemma uploads_ids: "map fst (uploads evs) = upload_ids evs"
  by (induction evs rule: uploads.induct) simp_all

lemma uploads_append: "uploads (evs @ evs') = uploads evs @ uploads evs'"
  by (induction evs rule: uploads.induct) simp_all

lemma ledger_NewServer: "ledger_inv cfg [] (NewServer cfg)"
  by (simp add: ledger_inv_def NewServer_def)

lemma ledger_pending:
  assumes inv: "ledger_inv cfg ups s"
    and k: "k < length (goroutines s)" and g: "goroutines s ! k = (tid, form)"
  shows "\<exists>p start. p < length ups \<and> ups ! p = (tid, form, start)
           \<and> transfers s tid = Some p \<and> records s ! p = new_upload_status tid start"
proof -
  have mem: "(tid, form) \<in> set (goroutines s)" using k g by (metis nth_mem)
  have "\<forall>g \<in> set (goroutines s). \<exists>u \<in> set ups. fst u = fst g \<and> fst (snd u) = snd g"
    using inv by (simp add: ledger_inv_def)
  then obtain u where u: "u \<in> set ups" "fst u = tid" "fst (snd u) = form"
    using mem by fastforce
  then obtain p where p: "p < length ups" "ups ! p = u" by (auto simp: in_set_conv_nth)
  have pend: "fst (ups ! p) \<in> fst ` set (goroutines s)"
    using mem p(2) u(2) by force
  have at: "transfers s (fst (ups ! p)) = Some p
      \<and> (if fst (ups ! p) \<in> fst ` set (goroutines s)
         then records s ! p = new_upload_status (fst (ups ! p)) (snd (snd (ups ! p)))
         else \<exists>io now. records s ! p =
                fst (processUpload_status cfg io (fst (snd (ups ! p))) now
                       (new_upload_status (fst (ups ! p)) (snd (snd (ups ! p))))))"
    using inv p(1) by (simp add: ledger_inv_def)
  have e: "ups ! p = (tid, form, snd (snd u))" using p(2) u(2,3) by (cases u) auto
  have "transfers s tid = Some p" using at e by simp
  moreover have "records s ! p = new_upload_status tid (snd (snd u))"
    using at pend e by simp
  ultimately show ?thesis using p(1) e by blast
qed

lemma ledger_upload:
  assumes inv: "ledger_inv cfg ups s"
    and fresh: "tid \<notin> fst ` set ups"
  shows "ledger_inv cfg (ups @ [(tid, form, start)])
           (s\<lparr>records := records s @ [new_upload_status tid start],
              transfers := (transfers s)(tid \<mapsto> length (records s)),
              goroutines := goroutines s @ [(tid, form)]\<rparr>)"
proof -
  let ?ups = "ups @ [(tid, form, start)]"
  let ?s = "s\<lparr>records := records s @ [new_upload_status tid start],
              transfers := (transfers s)(tid \<mapsto> length (records s)),
              goroutines := goroutines s @ [(tid, form)]\<rparr>"
  have len: "length (records s) = length ups" using inv by (simp add: ledger_inv_def)
  have sub: "\<forall>g \<in> set (goroutines s). \<exists>u \<in> set ups. fst u = fst g \<and> fst (snd u) = snd g"
    using inv by (simp add: ledger_inv_def)
  have notpend: "tid \<notin> fst ` set (goroutines s)"
  proof
    assume "tid \<in> fst ` set (goroutines s)"
    then obtain g where "g \<in> set (goroutines s)" "fst g = tid" by auto
    then obtain u where "u \<in> set ups" "fst u = tid" using sub by fastforce
    then show False using fresh by force
  qed
  have c1: "config ?s = cfg" using inv by (simp add: ledger_inv_def)
  have c2: "length (records ?s) = length ?ups" using len by simp
  have c3: "distinct (map fst (goroutines ?s))"
    using inv notpend by (simp add: ledger_inv_def)
  have c4: "\<forall>g \<in> set (goroutines ?s). \<exists>u \<in> set ?ups. fst u = fst g \<and> fst (snd u) = snd g"
    using sub by auto
  have c5: "transfers ?s (fst (?ups ! p)) = Some p
      \<and> (if fst (?ups ! p) \<in> fst ` set (goroutines ?s)
         then records ?s ! p = new_upload_status (fst (?ups ! p)) (snd (snd (?ups ! p)))
         else \<exists>io now. records ?s ! p =
                fst (processUpload_status cfg io (fst (snd (?ups ! p))) now
                       (new_upload_status (fst (?ups ! p)) (snd (snd (?ups ! p))))))"
    if p: "p < length ?ups" for p
  proof (cases "p < length ups")
    case True
    have ne: "fst (ups ! p) \<noteq> tid" using True fresh by (metis nth_mem image_eqI)
    have at: "transfers s (fst (ups ! p)) = Some p
      \<and> (if fst (ups ! p) \<in> fst ` set (goroutines s)
         then records s ! p = new_upload_status (fst (ups ! p)) (snd (snd (ups ! p)))
         else \<exists>io now. records s ! p =
                fst (processUpload_status cfg io (fst (snd (ups ! p))) now
                       (new_upload_status (fst (ups ! p)) (snd (snd (ups ! p))))))"
      using inv True by (simp add: ledger_inv_def)
    have u: "?ups ! p = ups ! p" using True by (simp add: nth_append)
    have r: "records ?s ! p = records s ! p" using True len by (simp add: nth_append)
    have t: "transfers ?s (fst (ups ! p)) = transfers s (fst (ups ! p))" using ne by simp
    have m: "(fst (ups ! p) \<in> fst ` set (goroutines ?s))
        = (fst (ups ! p) \<in> fst ` set (goroutines s))"
      using ne by auto
    show ?thesis unfolding u r t m using at .
  next
    case False
    then have pe: "p = length ups" using p by simp
    have u: "?ups ! p = (tid, form, start)" using pe by simp
    have r: "records ?s ! p = new_upload_status tid start"
      using pe len by (simp add: nth_append)
    have t: "transfers ?s tid = Some p" using pe len by simp
    have m: "tid \<in> fst ` set (goroutines ?s)" by simp
    show ?thesis unfolding u using r t m by simp
  qed
  show ?thesis
    unfolding ledger_inv_def using c1 c2 c3 c4 c5 by blast
qed

lemma ledger_run:
  assumes inv: "ledger_inv cfg ups s" and d: "distinct (map fst ups)"
    and k: "k < length (goroutines s)" and g: "goroutines s ! k = (tid, form)"
    and p: "p < length ups" "ups ! p = (tid, form, start)"
  shows "ledger_inv cfg ups
           (s\<lparr>goroutines := take k (goroutines s) @ drop (Suc k) (goroutines s),
              records := (records s)
                [p := fst (processUpload_status cfg io form now (new_upload_status tid start))]\<rparr>)
         \<and> tid \<notin> fst ` set (take k (goroutines s) @ drop (Suc k) (goroutines s))"
proof -
  let ?rest = "take k (goroutines s) @ drop (Suc k) (goroutines s)"
  let ?r = "fst (processUpload_status cfg io form now (new_upload_status tid start))"
  let ?s = "s\<lparr>goroutines := ?rest, records := (records s)[p := ?r]\<rparr>"
  have len: "length (records s) = length ups" using inv by (simp add: ledger_inv_def)
  have dist: "distinct (map fst (goroutines s))" using inv by (simp add: ledger_inv_def)
  have gs: "goroutines s = take k (goroutines s) @ (tid, form) # drop (Suc k) (goroutines s)"
    using k g by (metis id_take_nth_drop)
  have dd: "distinct (map fst (take k (goroutines s)) @ tid # map fst (drop (Suc k) (goroutines s)))"
    using dist gs by (metis map_append list.simps(9) fst_conv)
  have notin: "tid \<notin> fst ` set ?rest" using dd by auto
  have c3: "distinct (map fst (goroutines ?s))" using dd by auto
  have rest_sub: "set ?rest \<subseteq> set (goroutines s)"
    by (metis set_append Un_mono set_take_subset set_drop_subset Un_absorb)
  have sub: "\<forall>g \<in> set (goroutines s). \<exists>u \<in> set ups. fst u = fst g \<and> fst (snd u) = snd g"
    using inv by (simp add: ledger_inv_def)
  have "\<forall>g \<in> set ?rest. \<exists>u \<in> set ups. fst u = fst g \<and> fst (snd u) = snd g"
    using sub rest_sub by blast
  then have c4: "\<forall>g \<in> set (goroutines ?s). \<exists>u \<in> set ups. fst u = fst g \<and> fst (snd u) = snd g"
    by simp
  have mem_other: "(t \<in> fst ` set ?rest) = (t \<in> fst ` set (goroutines s))" if "t \<noteq> tid" for t
  proof -
    have "fst ` set (goroutines s) = insert tid (fst ` set ?rest)"
    proof -
      have "set (goroutines s) = insert (tid, form) (set ?rest)"
        using gs by (metis set_append list.simps(15) Un_insert_right)
      then show ?thesis by simp
    qed
    then show ?thesis using that by auto
  qed
  have c5: "transfers ?s (fst (ups ! q)) = Some q
      \<and> (if fst (ups ! q) \<in> fst ` set (goroutines ?s)
         then records ?s ! q = new_upload_status (fst (ups ! q)) (snd (snd (ups ! q)))
         else \<exists>io now. records ?s ! q =
                fst (processUpload_status cfg io (fst (snd (ups ! q))) now
                       (new_upload_status (fst (ups ! q)) (snd (snd (ups ! q))))))"
    if q: "q < length ups" for q
  proof (cases "q = p")
    case True
    have t: "transfers s tid = Some p" using inv p by (auto simp: ledger_inv_def)
    have r: "records ?s ! p = ?r" using p(1) len by simp
    have "\<exists>io' now'. ?r = fst (processUpload_status cfg io' form now' (new_upload_status tid start))"
      by blast
    then show ?thesis using True p(2) t r notin by simp
  next
    case False
    have "fst (ups ! q) \<noteq> fst (ups ! p)"
      using d q p(1) False by (metis distinct_conv_nth length_map nth_map)
    then have ne: "fst (ups ! q) \<noteq> tid" using p(2) by simp
    have at: "transfers s (fst (ups ! q)) = Some q
      \<and> (if fst (ups ! q) \<in> fst ` set (goroutines s)
         then records s ! q = new_upload_status (fst (ups ! q)) (snd (snd (ups ! q)))
         else \<exists>io now. records s ! q =
                fst (processUpload_status cfg io (fst (snd (ups ! q))) now
                       (new_upload_status (fst (ups ! q)) (snd (snd (ups ! q))))))"
      using inv q by (simp add: ledger_inv_def)
    have r: "records ?s ! q = records s ! q" using False by simp
    have t: "transfers ?s (fst (ups ! q)) = transfers s (fst (ups ! q))" by simp
    have m: "(fst (ups ! q) \<in> fst ` set (goroutines ?s))
        = (fst (ups ! q) \<in> fst ` set (goroutines s))"
      using mem_other [OF ne] by simp
    show ?thesis unfolding r t m using at .
  qed
  have c1: "config ?s = cfg" using inv by (simp add: ledger_inv_def)
  have c2: "length (records ?s) = length ups" using len by simp
  have "ledger_inv cfg ups ?s"
    unfolding ledger_inv_def using c1 c2 c3 c4 c5 by blast
  then show ?thesis using notin by blast
qed

lemma ledger_running:
  assumes inv: "ledger_inv cfg ups s" and p: "p < length ups"
  shows "(Status (records s ! p) = ''running'') = (fst (ups ! p) \<in> fst ` set (goroutines s))"
    and "Status (records s ! p) = ''running'' \<or> terminal (records s ! p)"
proof -
  have at: "if fst (ups ! p) \<in> fst ` set (goroutines s)
         then records s ! p = new_upload_status (fst (ups ! p)) (snd (snd (ups ! p)))
         else \<exists>io now. records s ! p =
                fst (processUpload_status cfg io (fst (snd (ups ! p))) now
                       (new_upload_status (fst (ups ! p)) (snd (snd (ups ! p)))))"
    using inv p by (simp add: ledger_inv_def)
  show "(Status (records s ! p) = ''running'') = (fst (ups ! p) \<in> fst ` set (goroutines s))"
  proof (cases "fst (ups ! p) \<in> fst ` set (goroutines s)")
    case True
    then show ?thesis using at by (simp add: new_upload_status_def)
  next
    case False
    then obtain io now where "records s ! p =
                fst (processUpload_status cfg io (fst (snd (ups ! p))) now
                       (new_upload_status (fst (ups ! p)) (snd (snd (ups ! p)))))"
      using at by auto
    then have "Status (records s ! p) \<noteq> ''running''"
      using processUpload_status_Status [of cfg io "fst (snd (ups ! p))" now] by simp
    then show ?thesis using False by simp
  qed
  show "Status (records s ! p) = ''running'' \<or> terminal (records s ! p)"
  proof (cases "fst (ups ! p) \<in> fst ` set (goroutines s)")
    case True
    then show ?thesis using at by (simp add: new_upload_status_def)
  next
    case False
    then obtain io now where "records s ! p =
                fst (processUpload_status cfg io (fst (snd (ups ! p))) now
                       (new_upload_status (fst (ups ! p)) (snd (snd (ups ! p)))))"
      using at by auto
    then have "terminal (records s ! p)"
      using processUpload_status_Status [of cfg io "fst (snd (ups ! p))" now]
      by (simp add: terminal_def)
    then show ?thesis by simp
  qed
qed

lemma serve_run_ledger:
  assumes inv: "ledger_inv cfg ups s" and d: "distinct (map fst ups)"
    and k: "k < length (goroutines s)"
  shows "\<exists>s' p tid form start.
      serve (RunUpload k io now) s = Some s'
    \<and> ledger_inv cfg ups s'
    \<and> p < length (records s) \<and> p < length ups \<and> ups ! p = (tid, form, start)
    \<and> goroutines s ! k = (tid, form)
    \<and> transfers s tid = Some p
    \<and> records s ! p = new_upload_status tid start
    \<and> processUpload io tid form now
         (s\<lparr>goroutines := take k (goroutines s) @ drop (Suc k) (goroutines s)\<rparr>)
       = Some (s', concat (map (upload_calls cfg io)
                  (take (Suc (length (stored_parts cfg io (File form ''files''))))
                     (File form ''files''))))
    \<and> records s' = (records s)
         [p := fst (processUpload_status cfg io form now (new_upload_status tid start))]
    \<and> goroutines s' = take k (goroutines s) @ drop (Suc k) (goroutines s)
    \<and> transfers s' = transfers s
    \<and> tid \<notin> fst ` set (goroutines s')"
proof -
  obtain tid form where g: "goroutines s ! k = (tid, form)"
    by (cases "goroutines s ! k") auto
  obtain p start where p: "p < length ups" "ups ! p = (tid, form, start)"
      "transfers s tid = Some p" "records s ! p = new_upload_status tid start"
    using ledger_pending [OF inv k g] by blast
  have len: "length (records s) = length ups" and c: "config s = cfg"
    using inv by (simp_all add: ledger_inv_def)
  let ?rest = "take k (goroutines s) @ drop (Suc k) (goroutines s)"
  let ?pus = "processUpload_status cfg io form now (new_upload_status tid start)"
  let ?s' = "s\<lparr>goroutines := ?rest, records := (records s)[p := fst ?pus]\<rparr>"
  have calls: "snd ?pus = concat (map (upload_calls cfg io)
                  (take (Suc (length (stored_parts cfg io (File form ''files''))))
                     (File form ''files'')))"
    using processUpload_status_outcome [of cfg io form now tid start] by blast
  have pu: "processUpload io tid form now (s\<lparr>goroutines := ?rest\<rparr>) = Some (?s', snd ?pus)"
    using p(3,4) c by (simp add: processUpload_def case_prod_unfold Let_def)
  have sv: "serve (RunUpload k io now) s = Some ?s'"
    using k g pu by simp
  have l: "ledger_inv cfg ups ?s'" and n: "tid \<notin> fst ` set ?rest"
    using ledger_run [OF inv d k g p(1,2), of io now] by blast+
  have plen: "p < length (records s)" using p(1) len by simp
  have f1: "records ?s' = (records s)[p := fst ?pus]" by simp
  have f2: "goroutines ?s' = ?rest" by simp
  have f3: "transfers ?s' = transfers s" by simp
  have f4: "tid \<notin> fst ` set (goroutines ?s')" using n by simp
  show ?thesis
    using sv l plen p(1,2) g p(3,4) pu [unfolded calls] f1 f2 f3 f4 by blast
qed

lemma serve_upload_ledger:
  assumes inv: "ledger_inv cfg (uploads evs) s"
    and d: "distinct (upload_ids (evs @ [UploadRequest ''POST'' (Inr form) now_id now_start]))"
  shows "ledger_inv cfg (uploads (evs @ [UploadRequest ''POST'' (Inr form) now_id now_start]))
           (s\<lparr>records := records s @ [new_upload_status (generateTransferID now_id) now_start],
              transfers := (transfers s)(generateTransferID now_id \<mapsto> length (records s)),
              goroutines := goroutines s @ [(generateTransferID now_id, form)]\<rparr>)"
proof -
  have "generateTransferID now_id \<notin> set (upload_ids evs)"
    using d by (simp add: upload_ids_append)
  then have fr: "generateTransferID now_id \<notin> fst ` set (uploads evs)"
    using uploads_ids [of evs] by (metis set_map)
  have u: "uploads (evs @ [UploadRequest ''POST'' (Inr form) now_id now_start])
      = uploads evs @ [(generateTransferID now_id, form, now_start)]"
    by (simp add: uploads_append)
  show ?thesis unfolding u using ledger_upload [OF inv fr] .
qed

lemma serve_ledger:
  assumes inv: "ledger_inv cfg (uploads evs) s"
    and d: "distinct (upload_ids (evs @ [e]))"
  shows "\<exists>s'. serve e s = Some s' \<and> ledger_inv cfg (uploads (evs @ [e])) s'
           \<and> length (records s) \<le> length (records s')
           \<and> (\<forall>p < length (records s). terminal (records s ! p)
                  \<longrightarrow> records s' ! p = records s ! p)"
proof (cases e)
  case (UploadRequest m parsed now_id now_start)
  show ?thesis
  proof (cases "m = ''POST'' \<and> \<not> isl parsed")
    case True
    then obtain form where f: "parsed = Inr form" by (cases parsed) auto
    have e: "e = UploadRequest ''POST'' (Inr form) now_id now_start"
      using UploadRequest True f by simp
    show ?thesis
      using serve_upload_ledger [OF inv d [unfolded e]] unfolding e
      by (simp add: handleUpload_def Let_def nth_append)
  next
    case False
    then have "fst (handleUpload m parsed now_id now_start s) = s"
      by (cases parsed) (auto simp: handleUpload_def)
    moreover have "uploads (evs @ [e]) = uploads evs"
      using UploadRequest False by (simp add: uploads_append)
    ultimately show ?thesis using inv UploadRequest by simp
  qed
next
  case (RunUpload k io now)
  have u: "uploads (evs @ [e]) = uploads evs" using RunUpload by (simp add: uploads_append)
  have d': "distinct (map fst (uploads evs))"
    using d by (simp add: uploads_ids upload_ids_append)
  show ?thesis
  proof (cases "k < length (goroutines s)")
    case True
    obtain s' p tid form start where r: "serve (RunUpload k io now) s = Some s'"
        "ledger_inv cfg (uploads evs) s'" "p < length (records s)"
        "records s ! p = new_upload_status tid start"
        "records s' = (records s)
           [p := fst (processUpload_status cfg io form now (new_upload_status tid start))]"
      using serve_run_ledger [OF inv d' True, of io now] by blast
    have nt: "\<not> terminal (records s ! p)"
      using r(4) by (simp add: terminal_def new_upload_status_def)
    have keep: "\<forall>q < length (records s). terminal (records s ! q)
                  \<longrightarrow> records s' ! q = records s ! q"
    proof (intro allI impI)
      fix q assume "q < length (records s)" "terminal (records s ! q)"
      then have "q \<noteq> p" using nt by blast
      then show "records s' ! q = records s ! q" unfolding r(5) by simp
    qed
    have "length (records s) \<le> length (records s')" unfolding r(5) by simp
    then show ?thesis using r(1,2) keep u unfolding RunUpload by auto
  next
    case False
    then show ?thesis using inv RunUpload u by simp
  qed
next
  case (StatusRequest m url)
  then show ?thesis using inv by (simp add: uploads_append)
qed

lemma serve_all_ledger:
  assumes "ledger_inv cfg (uploads evs) s"
    and "distinct (upload_ids (evs @ evs'))"
  shows "\<exists>s'. serve_all evs' s = Some s' \<and> ledger_inv cfg (uploads (evs @ evs')) s'
           \<and> length (records s) \<le> length (records s')
           \<and> (\<forall>p < length (records s). terminal (records s ! p)
                  \<longrightarrow> records s' ! p = records s ! p)"
  using assms
proof (induction evs' arbitrary: evs s)
  case Nil
  then show ?case by simp
next
  case (Cons e evs')
  have d1: "distinct (upload_ids (evs @ [e]))"
  proof -
    have "upload_ids (evs @ e # evs') = upload_ids (evs @ [e]) @ upload_ids evs'"
      using upload_ids_append [of "evs @ [e]" evs'] by simp
    then show ?thesis using Cons.prems(2) by simp
  qed
  obtain s1 where s1: "serve e s = Some s1" "ledger_inv cfg (uploads (evs @ [e])) s1"
      "length (records s) \<le> length (records s1)"
      "\<forall>p < length (records s). terminal (records s ! p) \<longrightarrow> records s1 ! p = records s ! p"
    using serve_ledger [OF Cons.prems(1) d1] by blast
  have d2: "distinct (upload_ids ((evs @ [e]) @ evs'))" using Cons.prems(2) by simp
  obtain s' where s': "serve_all evs' s1 = Some s'"
      "ledger_inv cfg (uploads ((evs @ [e]) @ evs')) s'"
      "length (records s1) \<le> length (records s')"
      "\<forall>p < length (records s1). terminal (records s1 ! p) \<longrightarrow> records s' ! p = records s1 ! p"
    using Cons.IH [OF s1(2) d2] by blast
  have keep: "\<forall>p < length (records s). terminal (records s ! p)
                  \<longrightarrow> records s' ! p = records s ! p"
  proof (intro allI impI)
    fix p assume p: "p < length (records s)" "terminal (records s ! p)"
    then have a: "records s1 ! p = records s ! p" using s1(4) by blast
    have "p < length (records s1)" using p s1(3) by simp
    then show "records s' ! p = records s ! p" using s'(4) a p by metis
  qed
  have "length (records s) \<le> length (records s')" using s1(3) s'(3) by simp
  then show ?case using s1(1) s'(1,2) keep by simp
qed

lemma processUpload_files_ID:
  "ID (fst (processUpload_files cfg io files i (st, calls))) = ID st"
proof (induction files arbitrary: i st calls)
  case Nil
  then show ?case by simp
next
  case (Cons fh files)
  obtain e st' made where r: "processUploadedFile cfg io fh st = (e, st', made)"
    by (cases "processUploadedFile cfg io fh st") auto
  have k: "ID st' = ID st"
    using r by (auto simp: processUploadedFile_def Let_def split: sum.splits option.splits)
  show ?case
  proof (cases e)
    case None
    then show ?thesis using r k Cons.IH by simp
  next
    case (Some err)
    then show ?thesis using r k by simp
  qed
qed

lemma processUpload_status_ID:
  "ID (fst (processUpload_status cfg io form now st)) = ID st"
proof -
  obtain st3 calls where r: "processUpload_files cfg io (File form ''files'') 0
      (st\<lparr>TransferStatus.TotalFiles := int (length (File form ''files'')),
          TransferStatus.TotalSize := TransferStatus.TotalSize st
             + sum_list (map FileHeader.Size (File form ''files''))\<rparr>, []) = (st3, calls)"
    by (meson surj_pair)
  have "ID st3 = ID st"
    using processUpload_files_ID [of cfg io "File form ''files''" 0
        "st\<lparr>TransferStatus.TotalFiles := int (length (File form ''files'')),
          TransferStatus.TotalSize := TransferStatus.TotalSize st
             + sum_list (map FileHeader.Size (File form ''files''))\<rparr>" "[]"] r
    by simp
  then show ?thesis
    using r by (simp add: processUpload_status_def Let_def)
qed

lemma ledger_ID:
  assumes inv: "ledger_inv cfg ups s"
  shows "map ID (records s) = map fst ups"
proof (rule nth_equalityI)
  show "length (map ID (records s)) = length (map fst ups)"
    using inv by (simp add: ledger_inv_def)
next
  fix p assume "p < length (map ID (records s))"
  then have p: "p < length ups" "p < length (records s)"
    using inv by (simp_all add: ledger_inv_def)
  have at: "if fst (ups ! p) \<in> fst ` set (goroutines s)
         then records s ! p = new_upload_status (fst (ups ! p)) (snd (snd (ups ! p)))
         else \<exists>io now. records s ! p =
                fst (processUpload_status cfg io (fst (snd (ups ! p))) now
                       (new_upload_status (fst (ups ! p)) (snd (snd (ups ! p)))))"
    using inv p by (simp add: ledger_inv_def)
  have "ID (records s ! p) = fst (ups ! p)"
  proof (cases "fst (ups ! p) \<in> fst ` set (goroutines s)")
    case True
    then show ?thesis using at by (simp add: new_upload_status_def)
  next
    case False
    then obtain io now where "records s ! p =
                fst (processUpload_status cfg io (fst (snd (ups ! p))) now
                       (new_upload_status (fst (ups ! p)) (snd (snd (ups ! p)))))"
      using at by auto
    then show ?thesis
      using processUpload_status_ID [of cfg io "fst (snd (ups ! p))" now]
      by (simp add: new_upload_status_def)
  qed
  then show "map ID (records s) ! p = map fst ups ! p" using p by simp
qed

lemma serve_effect:
  assumes inv: "ledger_inv cfg (uploads evs) s" and d: "distinct (upload_ids evs)"
    and sv: "serve e s = Some s'"
  shows "case e of
         UploadRequest m parsed now_id now_start \<Rightarrow>
           if m = ''POST'' \<and> \<not> isl parsed
           then records s' = records s @ [new_upload_status (generateTransferID now_id) now_start]
              \<and> Status (last (records s')) = ''running''
              \<and> goroutines s' = goroutines s @ [(generateTransferID now_id, projr parsed)]
           else s' = s
       | StatusRequest m url_path \<Rightarrow> s' = s
       | RunUpload k io now \<Rightarrow>
           if k < length (goroutines s)
           then (\<exists>p tid form start.
                   p < length (records s) \<and> uploads evs ! p = (tid, form, start)
                 \<and> goroutines s ! k = (tid, form)
                 \<and> transfers s tid = Some p
                 \<and> records s ! p = new_upload_status tid start
                 \<and> processUpload io tid form now
                     (s\<lparr>goroutines := take k (goroutines s) @ drop (Suc k) (goroutines s)\<rparr>)
                   = Some (s', concat (map (upload_calls cfg io)
                        (take (Suc (length (stored_parts cfg io (File form ''files''))))
                           (File form ''files''))))
                 \<and> length (records s') = length (records s)
                 \<and> (\<forall>q < length (records s). q \<noteq> p \<longrightarrow> records s' ! q = records s ! q)
                 \<and> Status (records s' ! p)
                     = (if \<forall>fh \<in> set (File form ''files''). upload_error cfg io fh = None
                        then ''completed'' else ''failed'')
                 \<and> Error (records s' ! p)
                     = (case upload_failure cfg io (File form ''files'') of
                          None \<Rightarrow> [] | Some err \<Rightarrow> err)
                 \<and> TransferStatus.ProcessedFiles (records s' ! p)
                     = int (length (stored_parts cfg io (File form ''files'')))
                 \<and> tid \<notin> fst ` set (goroutines s'))
           else s' = s"
proof (cases e)
  case (UploadRequest m parsed now_id now_start)
  show ?thesis
  proof (cases "m = ''POST'' \<and> \<not> isl parsed")
    case True
    then obtain form where f: "parsed = Inr form" by (cases parsed) auto
    show ?thesis
      using sv UploadRequest True f
      by (auto simp: handleUpload_def Let_def new_upload_status_def)
  next
    case False
    then have "fst (handleUpload m parsed now_id now_start s) = s"
      by (cases parsed) (auto simp: handleUpload_def)
    then show ?thesis using sv UploadRequest False by auto
  qed
next
  case (StatusRequest m url)
  then show ?thesis using sv by simp
next
  case (RunUpload k io now)
  show ?thesis
  proof (cases "k < length (goroutines s)")
    case False
    then show ?thesis using sv RunUpload by simp
  next
    case True
    have d': "distinct (map fst (uploads evs))" using d by (simp add: uploads_ids)
    obtain s2 p tid form start where r:
        "serve (RunUpload k io now) s = Some s2"
        "p < length (records s)" "uploads evs ! p = (tid, form, start)"
        "goroutines s ! k = (tid, form)"
        "transfers s tid = Some p"
        "records s ! p = new_upload_status tid start"
        "processUpload io tid form now
           (s\<lparr>goroutines := take k (goroutines s) @ drop (Suc k) (goroutines s)\<rparr>)
         = Some (s2, concat (map (upload_calls cfg io)
                  (take (Suc (length (stored_parts cfg io (File form ''files''))))
                     (File form ''files''))))"
        "records s2 = (records s)
           [p := fst (processUpload_status cfg io form now (new_upload_status tid start))]"
        "tid \<notin> fst ` set (goroutines s2)"
      using serve_run_ledger [OF inv d' True, of io now] by blast
    have e: "s2 = s'" using r(1) sv RunUpload by simp
    let ?r = "fst (processUpload_status cfg io form now (new_upload_status tid start))"
    have at: "records s2 ! p = ?r" unfolding r(8) using r(2) by simp
    have o: "Status (records s2 ! p) = (if \<forall>fh \<in> set (File form ''files''). upload_error cfg io fh = None
                        then ''completed'' else ''failed'')"
        "Error (records s2 ! p) = (case upload_failure cfg io (File form ''files'') of
                          None \<Rightarrow> [] | Some err \<Rightarrow> err)"
        "TransferStatus.ProcessedFiles (records s2 ! p)
           = int (length (stored_parts cfg io (File form ''files'')))"
      unfolding at
      using processUpload_status_Status [of cfg io form now "new_upload_status tid start"]
        processUpload_status_outcome [of cfg io form now tid start] by blast+
    have l: "length (records s2) = length (records s)" unfolding r(8) by simp
    have k: "\<forall>q < length (records s). q \<noteq> p \<longrightarrow> records s2 ! q = records s ! q"
      unfolding r(8) by simp
    have "\<exists>p tid form start.
                   p < length (records s) \<and> uploads evs ! p = (tid, form, start)
                 \<and> goroutines s ! k = (tid, form)
                 \<and> transfers s tid = Some p
                 \<and> records s ! p = new_upload_status tid start
                 \<and> processUpload io tid form now
                     (s\<lparr>goroutines := take k (goroutines s) @ drop (Suc k) (goroutines s)\<rparr>)
                   = Some (s2, concat (map (upload_calls cfg io)
                        (take (Suc (length (stored_parts cfg io (File form ''files''))))
                           (File form ''files''))))
                 \<and> length (records s2) = length (records s)
                 \<and> (\<forall>q < length (records s). q \<noteq> p \<longrightarrow> records s2 ! q = records s ! q)
                 \<and> Status (records s2 ! p)
                     = (if \<forall>fh \<in> set (File form ''files''). upload_error cfg io fh = None
                        then ''completed'' else ''failed'')
                 \<and> Error (records s2 ! p)
                     = (case upload_failure cfg io (File form ''files'') of
                          None \<Rightarrow> [] | Some err \<Rightarrow> err)
                 \<and> TransferStatus.ProcessedFiles (records s2 ! p)
                     = int (length (stored_parts cfg io (File form ''files'')))
                 \<and> tid \<notin> fst ` set (goroutines s2)"
      using r(2-7) l k o r(9) by (intro exI conjI)
    then show ?thesis unfolding RunUpload e using True by simp
  qed
qed

lemma ledger_at:
  assumes inv: "ledger_inv cfg ups s" and d: "distinct (map fst ups)"
    and p: "p < length ups" "ups ! p = (tid, form, start)"
  shows "transfers s tid = Some p"
    and "tid \<in> fst ` set (goroutines s) \<Longrightarrow>
           records s ! p = new_upload_status tid start \<and> (tid, form) \<in> set (goroutines s)"
    and "tid \<notin> fst ` set (goroutines s) \<Longrightarrow>
           \<exists>io now. records s ! p
              = fst (processUpload_status cfg io form now (new_upload_status tid start))"
proof -
  have at: "transfers s (fst (ups ! p)) = Some p
      \<and> (if fst (ups ! p) \<in> fst ` set (goroutines s)
         then records s ! p = new_upload_status (fst (ups ! p)) (snd (snd (ups ! p)))
         else \<exists>io now. records s ! p =
                fst (processUpload_status cfg io (fst (snd (ups ! p))) now
                       (new_upload_status (fst (ups ! p)) (snd (snd (ups ! p))))))"
    using inv p(1) by (simp add: ledger_inv_def)
  show "transfers s tid = Some p" using at p(2) by simp
  show "\<exists>io now. records s ! p
              = fst (processUpload_status cfg io form now (new_upload_status tid start))"
    if "tid \<notin> fst ` set (goroutines s)"
    using at p(2) that by simp
  show "records s ! p = new_upload_status tid start \<and> (tid, form) \<in> set (goroutines s)"
    if pend: "tid \<in> fst ` set (goroutines s)"
  proof -
    have r: "records s ! p = new_upload_status tid start" using at p(2) pend by simp
    obtain g where g: "g \<in> set (goroutines s)" "fst g = tid" using pend by auto
    have "\<forall>g \<in> set (goroutines s). \<exists>u \<in> set ups. fst u = fst g \<and> fst (snd u) = snd g"
      using inv by (simp add: ledger_inv_def)
    then obtain u where u: "u \<in> set ups" "fst u = tid" "fst (snd u) = snd g"
      using g by fastforce
    obtain q where q: "q < length ups" "ups ! q = u" using u(1) by (auto simp: in_set_conv_nth)
    have "fst (ups ! q) = fst (ups ! p)" using q(2) u(2) p(2) by simp
    then have "q = p"
      using d q(1) p(1) by (metis distinct_conv_nth length_map nth_map)
    then have "u = (tid, form, start)" using q(2) p(2) by simp
    then have "snd g = form" using u(3) by simp
    then have "g = (tid, form)" using g(2) by (cases g) simp
    then show ?thesis using r g(1) by simp
  qed
qed

text \<open>
  C4, provided no two upload requests are given the same transfer identifier. Let the
  server have served the events \<open>evs\<close>, let \<open>e\<close> be the next event and \<open>evs'\<close> the
  events after it. The server does not crash, and
  \<^item> there is one record for each accepted upload request, in order, with the identifier
    of the request; a record is "running" exactly as long as the \<^verbatim>\<open>processUpload\<close>
    goroutine of its request is pending, and "completed" or "failed" otherwise;
  \<^item> an accepted upload request adds one record, which is "running", and starts its
    goroutine; a request that is refused and a status request change nothing;
  \<^item> the run of a pending goroutine works on the record of its own request, which is
    still as it was created. It makes the file-system calls of the file parts of that
    request up to and including the first part that fails, and of no later part; the
    record becomes "completed" when no part fails and "failed" otherwise, with the
    error of the first part that fails and with the number of parts before it as the
    count of processed files; no other record changes;
  \<^item> a record that is "completed" or "failed" is the same after all the events that
    follow.
\<close>

theorem transfer_status_lifecycle:
  assumes "distinct (upload_ids (evs @ e # evs'))"
  shows "\<exists>s1 s2 s3.
      serve_all evs (NewServer cfg) = Some s1 \<and> serve e s1 = Some s2
    \<and> serve_all evs' s2 = Some s3
    \<and> serve_all (evs @ e # evs') (NewServer cfg) = Some s3
    \<and> map ID (records s1) = upload_ids evs
    \<and> (\<forall>p < length (records s1).
          (Status (records s1 ! p) = ''running'')
            = (upload_ids evs ! p \<in> fst ` set (goroutines s1))
          \<and> (Status (records s1 ! p) = ''running'' \<or> terminal (records s1 ! p)))
    \<and> (case e of
         UploadRequest m parsed now_id now_start \<Rightarrow>
           if m = ''POST'' \<and> \<not> isl parsed
           then records s2 = records s1 @ [new_upload_status (generateTransferID now_id) now_start]
              \<and> Status (last (records s2)) = ''running''
              \<and> goroutines s2 = goroutines s1 @ [(generateTransferID now_id, projr parsed)]
           else s2 = s1
       | StatusRequest m url_path \<Rightarrow> s2 = s1
       | RunUpload k io now \<Rightarrow>
           if k < length (goroutines s1)
           then (\<exists>p tid form start.
                   p < length (records s1) \<and> uploads evs ! p = (tid, form, start)
                 \<and> goroutines s1 ! k = (tid, form)
                 \<and> transfers s1 tid = Some p
                 \<and> records s1 ! p = new_upload_status tid start
                 \<and> processUpload io tid form now
                     (s1\<lparr>goroutines := take k (goroutines s1) @ drop (Suc k) (goroutines s1)\<rparr>)
                   = Some (s2, concat (map (upload_calls cfg io)
                        (take (Suc (length (stored_parts cfg io (File form ''files''))))
                           (File form ''files''))))
                 \<and> length (records s2) = length (records s1)
                 \<and> (\<forall>q < length (records s1). q \<noteq> p \<longrightarrow> records s2 ! q = records s1 ! q)
                 \<and> Status (records s2 ! p)
                     = (if \<forall>fh \<in> set (File form ''files''). upload_error cfg io fh = None
                        then ''completed'' else ''failed'')
                 \<and> Error (records s2 ! p)
                     = (case upload_failure cfg io (File form ''files'') of
                          None \<Rightarrow> [] | Some err \<Rightarrow> err)
                 \<and> TransferStatus.ProcessedFiles (records s2 ! p)
                     = int (length (stored_parts cfg io (File form ''files'')))
                 \<and> tid \<notin> fst ` set (goroutines s2))
           else s2 = s1)
    \<and> (\<forall>p < length (records s2). terminal (records s2 ! p)
          \<longrightarrow> records s3 ! p = records s2 ! p)"
proof -
  have sp: "upload_ids (evs @ e # evs') = upload_ids evs @ upload_ids (e # evs')"
    "upload_ids (evs @ e # evs') = upload_ids (evs @ [e]) @ upload_ids evs'"
    using upload_ids_append [of evs "e # evs'"] upload_ids_append [of "evs @ [e]" evs']
    by simp_all
  have d1: "distinct (upload_ids ([] @ evs))" using assms sp(1) by simp
  have d2: "distinct (upload_ids (evs @ [e]))" using assms sp(2) by simp
  have d3: "distinct (upload_ids ((evs @ [e]) @ evs'))" using assms by simp
  have i0: "ledger_inv cfg (uploads []) (NewServer cfg)" using ledger_NewServer by simp
  obtain s1 where s1: "serve_all evs (NewServer cfg) = Some s1" "ledger_inv cfg (uploads evs) s1"
    using serve_all_ledger [OF i0 d1] by auto
  obtain s2 where s2: "serve e s1 = Some s2" "ledger_inv cfg (uploads (evs @ [e])) s2"
    using serve_ledger [OF s1(2) d2] by blast
  obtain s3 where s3: "serve_all evs' s2 = Some s3"
      "\<forall>p < length (records s2). terminal (records s2 ! p) \<longrightarrow> records s3 ! p = records s2 ! p"
    using serve_all_ledger [OF s2(2) d3] by blast
  have all: "serve_all (evs @ e # evs') (NewServer cfg) = Some s3"
    using s1(1) s2(1) s3(1) by (simp add: serve_all_append)
  have ids: "map ID (records s1) = upload_ids evs"
    using ledger_ID [OF s1(2)] by (simp add: uploads_ids)
  have len: "length (records s1) = length (uploads evs)"
    using s1(2) by (simp add: ledger_inv_def)
  have run: "\<forall>p < length (records s1).
          (Status (records s1 ! p) = ''running'')
            = (upload_ids evs ! p \<in> fst ` set (goroutines s1))
          \<and> (Status (records s1 ! p) = ''running'' \<or> terminal (records s1 ! p))"
  proof (intro allI impI)
    fix p assume "p < length (records s1)"
    then have p: "p < length (uploads evs)" using len by simp
    have "upload_ids evs ! p = fst (uploads evs ! p)"
      using p uploads_ids [of evs] by (metis nth_map)
    then show "(Status (records s1 ! p) = ''running'')
            = (upload_ids evs ! p \<in> fst ` set (goroutines s1))
          \<and> (Status (records s1 ! p) = ''running'' \<or> terminal (records s1 ! p))"
      using ledger_running [OF s1(2) p] by simp
  qed
  have d0: "distinct (upload_ids evs)" using d1 by simp
  note eff = serve_effect [OF s1(2) d0 s2(1)]
  show ?thesis
    using s1(1) s2(1) s3(1) all ids run eff s3(2) by (intro exI conjI)
qed

text \<open>
  An upload with the parts \<^verbatim>\<open>a.txt\<close>, \<^verbatim>\<open>b.txt\<close> (which cannot be opened) and
  \<^verbatim>\<open>c.txt\<close>: the record is "running" until the goroutine runs, then "failed" with
  the error of \<^verbatim>\<open>b.txt\<close>, one file and two bytes processed and no call made for
  \<^verbatim>\<open>c.txt\<close>; a second upload and the run of its goroutine leave the record as it is.
\<close>

theorem transfer_status_lifecycle_witness:
  "distinct (upload_ids
     ([UploadRequest ''POST''
         (Inr \<lparr>Value = (\<lambda>k. []),
               File = (\<lambda>k. [\<lparr>Filename = ''a.txt'', Size = 2, Open = Inr ''aa''\<rparr>,
                             \<lparr>Filename = ''b.txt'', Size = 2, Open = Inl ''EOF''\<rparr>,
                             \<lparr>Filename = ''c.txt'', Size = 2, Open = Inr ''cc''\<rparr>])\<rparr>) 1 1]
      @ RunUpload 0 (\<lambda>c. None) 5
      # [UploadRequest ''POST'' (Inr \<lparr>Value = (\<lambda>k. []), File = (\<lambda>k. [])\<rparr>) 2 2,
         RunUpload 0 (\<lambda>c. None) 6]))
   \<and> (\<exists>s1 s2 s3.
        serve_all
          [UploadRequest ''POST''
             (Inr \<lparr>Value = (\<lambda>k. []),
                   File = (\<lambda>k. [\<lparr>Filename = ''a.txt'', Size = 2, Open = Inr ''aa''\<rparr>,
                                 \<lparr>Filename = ''b.txt'', Size = 2, Open = Inl ''EOF''\<rparr>,
                                 \<lparr>Filename = ''c.txt'', Size = 2, Open = Inr ''cc''\<rparr>])\<rparr>) 1 1]
          (NewServer \<lparr>StoragePath = ''uploads'', MaxFileSize = 100\<rparr>) = Some s1
      \<and> serve (RunUpload 0 (\<lambda>c. None) 5) s1 = Some s2
      \<and> serve_all
           [UploadRequest ''POST'' (Inr \<lparr>Value = (\<lambda>k. []), File = (\<lambda>k. [])\<rparr>) 2 2,
            RunUpload 0 (\<lambda>c. None) 6] s2 = Some s3
      \<and> Status (records s1 ! 0) = ''running''
      \<and> map_option snd
          (processUpload (\<lambda>c. None) (generateTransferID 1)
             \<lparr>Value = (\<lambda>k. []),
              File = (\<lambda>k. [\<lparr>Filename = ''a.txt'', Size = 2, Open = Inr ''aa''\<rparr>,
                            \<lparr>Filename = ''b.txt'', Size = 2, Open = Inl ''EOF''\<rparr>,
                            \<lparr>Filename = ''c.txt'', Size = 2, Open = Inr ''cc''\<rparr>])\<rparr>
             5 (s1\<lparr>goroutines := []\<rparr>))
        = Some [MkdirAll ''uploads'', Create ''uploads/a.txt'',
                CopyTo ''uploads/a.txt'' ''aa'', HashFile ''uploads/a.txt'']
      \<and> Status (records s2 ! 0) = ''failed''
      \<and> Error (records s2 ! 0) = ''failed to open uploaded file: EOF''
      \<and> TransferStatus.ProcessedFiles (records s2 ! 0) = 1
      \<and> TransferStatus.ProcessedSize (records s2 ! 0) = 2
      \<and> records s3 ! 0 = records s2 ! 0
      \<and> Status (records s3 ! 1) = ''completed'')"
proof -
  let ?form = "\<lparr>Value = (\<lambda>k. []),
               File = (\<lambda>k. [\<lparr>Filename = ''a.txt'', Size = 2, Open = Inr ''aa''\<rparr>,
                             \<lparr>Filename = ''b.txt'', Size = 2, Open = Inl ''EOF''\<rparr>,
                             \<lparr>Filename = ''c.txt'', Size = 2, Open = Inr ''cc''\<rparr>])\<rparr>"
  let ?none = "\<lparr>Value = (\<lambda>k. []), File = (\<lambda>k. [])\<rparr>"
  let ?evs = "[UploadRequest ''POST'' (Inr ?form) 1 1]"
  let ?e = "RunUpload 0 (\<lambda>c. None) 5"
  let ?evs' = "[UploadRequest ''POST'' (Inr ?none) 2 2, RunUpload 0 (\<lambda>c. None) 6]"
  let ?cfg = "\<lparr>StoragePath = ''uploads'', MaxFileSize = 100\<rparr>"
  have h: "distinct (upload_ids (?evs @ ?e # ?evs'))"
    by (simp add: generateTransferID_def decimal_def)
  obtain s1 s2 s3 where r: "serve_all ?evs (NewServer ?cfg) = Some s1"
      "serve ?e s1 = Some s2" "serve_all ?evs' s2 = Some s3"
      "\<forall>p < length (records s2). terminal (records s2 ! p) \<longrightarrow> records s3 ! p = records s2 ! p"
    using transfer_status_lifecycle [OF h, where cfg = ?cfg] by blast
  have e1: "s1 = \<lparr>config = ?cfg,
      transfers = [generateTransferID 1 \<mapsto> 0],
      records = [new_upload_status (generateTransferID 1) 1],
      goroutines = [(generateTransferID 1, ?form)]\<rparr>"
    using r(1) by (simp add: NewServer_def handleUpload_def Let_def)
  have a1: "Status (records s1 ! 0) = ''running''"
    unfolding e1 by (simp add: new_upload_status_def)
  have e2: "records s2 ! 0
      = fst (processUpload_status ?cfg (\<lambda>c. None) ?form 5 (new_upload_status (generateTransferID 1) 1))
      \<and> length (records s2) = 1 \<and> goroutines s2 = []
      \<and> transfers s2 = [generateTransferID 1 \<mapsto> 0] \<and> config s2 = ?cfg"
    using r(2) unfolding e1 by (auto simp: processUpload_def case_prod_unfold Let_def)
  have a2: "Status (records s2 ! 0) = ''failed''"
      "Error (records s2 ! 0) = ''failed to open uploaded file: EOF''"
      "TransferStatus.ProcessedFiles (records s2 ! 0) = 1"
      "TransferStatus.ProcessedSize (records s2 ! 0) = 2"
    using e2
    by (simp_all add: processUpload_status_def processUploadedFile_def Let_def
        new_upload_status_def)
  have c: "concat (map (upload_calls ?cfg (\<lambda>c. None))
     (take (Suc (length (stored_parts ?cfg (\<lambda>c. None) (File ?form ''files''))))
        (File ?form ''files'')))
   = [MkdirAll ''uploads'', Create ''uploads/a.txt'', CopyTo ''uploads/a.txt'' ''aa'',
      HashFile ''uploads/a.txt'']"
    by code_simp
  have "snd (processUpload_status ?cfg (\<lambda>c. None) ?form 5
               (new_upload_status (generateTransferID 1) 1))
      = [MkdirAll ''uploads'', Create ''uploads/a.txt'', CopyTo ''uploads/a.txt'' ''aa'',
         HashFile ''uploads/a.txt'']"
    using processUpload_status_outcome [of ?cfg "\<lambda>c. None" ?form 5 "generateTransferID 1" 1]
    unfolding c by (elim conjE)
  then have a5: "map_option snd
          (processUpload (\<lambda>c. None) (generateTransferID 1) ?form 5 (s1\<lparr>goroutines := []\<rparr>))
        = Some [MkdirAll ''uploads'', Create ''uploads/a.txt'',
                CopyTo ''uploads/a.txt'' ''aa'', HashFile ''uploads/a.txt'']"
    unfolding e1 by (simp add: processUpload_def case_prod_unfold Let_def)
  have t: "0 < length (records s2) \<and> terminal (records s2 ! 0)"
    using e2 a2(1) by (simp add: terminal_def)
  then have a3: "records s3 ! 0 = records s2 ! 0" using r(4) by blast
  have ne: "generateTransferID 2 \<noteq> generateTransferID 1"
    by (simp add: generateTransferID_def decimal_def)
  have a4: "Status (records s3 ! 1) = ''completed''"
    using r(3) e2 ne
    by (cases s2)
      (auto simp: handleUpload_def Let_def processUpload_def processUpload_status_def
        new_upload_status_def nth_append)
  show ?thesis
    using h r(1,2,3) a1 a5 a2 a3 a4 by (intro exI conjI)
qed

text \<open>
  C4 as it is stated fails when the clock gives two upload requests the same
  identifier: the second registration replaces the first, both goroutines then work on
  the second record, and the one that runs last changes the terminal state the other
  one has set. Here the first upload has no file part and the second has a part that
  cannot be opened: the second record is "completed" by the goroutine of the first
  upload and then "failed" by its own, and the first record is "running" for ever,
  with no goroutine left.
\<close>

theorem colliding_ids_change_terminal_state:
  "lifecycle_at 1
     (serve_all
        [UploadRequest ''POST'' (Inr \<lparr>Value = (\<lambda>k. []), File = (\<lambda>k. [])\<rparr>) 5 5,
         UploadRequest ''POST''
           (Inr \<lparr>Value = (\<lambda>k. []),
                 File = (\<lambda>k. [\<lparr>Filename = ''a.txt'', Size = 4, Open = Inl ''EOF''\<rparr>])\<rparr>) 5 6,
         RunUpload 0 (\<lambda>c. None) 7]
        (NewServer \<lparr>StoragePath = ''uploads'', MaxFileSize = 100\<rparr>)) = Some ''completed''
   \<and> lifecycle_at 1
     (serve_all
        [UploadRequest ''POST'' (Inr \<lparr>Value = (\<lambda>k. []), File = (\<lambda>k. [])\<rparr>) 5 5,
         UploadRequest ''POST''
           (Inr \<lparr>Value = (\<lambda>k. []),
                 File = (\<lambda>k. [\<lparr>Filename = ''a.txt'', Size = 4, Open = Inl ''EOF''\<rparr>])\<rparr>) 5 6,
         RunUpload 0 (\<lambda>c. None) 7,
         RunUpload 0 (\<lambda>c. None) 8]
        (NewServer \<lparr>StoragePath = ''uploads'', MaxFileSize = 100\<rparr>)) = Some ''failed''
   \<and> lifecycle_at 0
     (serve_all
        [UploadRequest ''POST'' (Inr \<lparr>Value = (\<lambda>k. []), File = (\<lambda>k. [])\<rparr>) 5 5,
         UploadRequest ''POST''
           (Inr \<lparr>Value = (\<lambda>k. []),
                 File = (\<lambda>k. [\<lparr>Filename = ''a.txt'', Size = 4, Open = Inl ''EOF''\<rparr>])\<rparr>) 5 6,
         RunUpload 0 (\<lambda>c. None) 7,
         RunUpload 0 (\<lambda>c. None) 8]
        (NewServer \<lparr>StoragePath = ''uploads'', MaxFileSize = 100\<rparr>)) = Some ''running''
   \<and> map_option goroutines
     (serve_all
        [UploadRequest ''POST'' (Inr \<lparr>Value = (\<lambda>k. []), File = (\<lambda>k. [])\<rparr>) 5 5,
         UploadRequest ''POST''
           (Inr \<lparr>Value = (\<lambda>k. []),
                 File = (\<lambda>k. [\<lparr>Filename = ''a.txt'', Size = 4, Open = Inl ''EOF''\<rparr>])\<rparr>) 5 6,
         RunUpload 0 (\<lambda>c. None) 7,
         RunUpload 0 (\<lambda>c. None) 8]
        (NewServer \<lparr>StoragePath = ''uploads'', MaxFileSize = 100\<rparr>)) = Some []"
  by (simp add: lifecycle_at_def NewServer_def handleUpload_def Let_def processUpload_def
      processUpload_status_def processUploadedFile_def new_upload_status_def
      generateTransferID_def decimal_def)

text \<open>
  C10, provided no two upload requests are given the same transfer identifier. An
  upload request whose form has no part under \<^verbatim>\<open>files\<close>, served after the events
  \<open>evs\<close> and followed by the events \<open>evs'\<close>, is accepted (the answer is "started", not
  an error), the server does not crash, and the identifier stays registered with the
  record of the request. As long as the goroutine of the request is pending, the
  record is as it was created; once the goroutine has run, the record is "completed"
  with no error message, total file count 0, processed file count 0 and progress 0.
  Whenever the pending goroutine is run, it makes no file-system call, it is pending
  no longer, and the record is "completed" with these counts.
\<close>

theorem empty_upload_completes:
  assumes "File form ''files'' = []"
    and "distinct (upload_ids (evs @ UploadRequest ''POST'' (Inr form) now_id now_start # evs'))"
  shows "\<exists>s1 s3.
      serve_all evs (NewServer cfg) = Some s1
    \<and> snd (handleUpload ''POST'' (Inr form) now_id now_start s1)
        = Started (generateTransferID now_id)
    \<and> serve_all (evs @ UploadRequest ''POST'' (Inr form) now_id now_start # evs') (NewServer cfg)
        = Some s3
    \<and> length (records s1) < length (records s3)
    \<and> transfers s3 (generateTransferID now_id) = Some (length (records s1))
    \<and> (if generateTransferID now_id \<in> fst ` set (goroutines s3)
       then records s3 ! length (records s1)
              = new_upload_status (generateTransferID now_id) now_start
            \<and> (generateTransferID now_id, form) \<in> set (goroutines s3)
       else Status (records s3 ! length (records s1)) = ''completed''
            \<and> Error (records s3 ! length (records s1)) = []
            \<and> TransferStatus.TotalFiles (records s3 ! length (records s1)) = 0
            \<and> TransferStatus.ProcessedFiles (records s3 ! length (records s1)) = 0
            \<and> Progress (records s3 ! length (records s1)) = 0)
    \<and> (\<forall>k io now. k < length (goroutines s3)
          \<longrightarrow> fst (goroutines s3 ! k) = generateTransferID now_id
          \<longrightarrow> (\<exists>s4.
                processUpload io (generateTransferID now_id) form now
                  (s3\<lparr>goroutines := take k (goroutines s3) @ drop (Suc k) (goroutines s3)\<rparr>)
                  = Some (s4, [])
              \<and> serve (RunUpload k io now) s3 = Some s4
              \<and> generateTransferID now_id \<notin> fst ` set (goroutines s4)
              \<and> transfers s4 (generateTransferID now_id) = Some (length (records s1))
              \<and> Status (records s4 ! length (records s1)) = ''completed''
              \<and> Error (records s4 ! length (records s1)) = []
              \<and> TransferStatus.TotalFiles (records s4 ! length (records s1)) = 0
              \<and> TransferStatus.ProcessedFiles (records s4 ! length (records s1)) = 0
              \<and> Progress (records s4 ! length (records s1)) = 0))"
proof -
  let ?tid = "generateTransferID now_id"
  let ?req = "UploadRequest ''POST'' (Inr form) now_id now_start"
  let ?all = "evs @ ?req # evs'"
  let ?ups = "uploads ?all"
  let ?fin = "\<lambda>now. (new_upload_status ?tid now_start)\<lparr>Status := ''completed'', EndTime := Some now\<rparr>"
  have sp: "upload_ids ?all = upload_ids evs @ upload_ids (?req # evs')"
    using upload_ids_append [of evs "?req # evs'"] by simp
  have d1: "distinct (upload_ids ([] @ evs))" using assms(2) sp by simp
  have d2: "distinct (upload_ids ([] @ ?all))" using assms(2) by simp
  have i0: "ledger_inv cfg (uploads []) (NewServer cfg)" using ledger_NewServer by simp
  obtain s1 where s1: "serve_all evs (NewServer cfg) = Some s1" "ledger_inv cfg (uploads evs) s1"
    using serve_all_ledger [OF i0 d1] by auto
  obtain s3 where s3: "serve_all ?all (NewServer cfg) = Some s3" "ledger_inv cfg ?ups s3"
    using serve_all_ledger [OF i0 d2] by auto
  have l1: "length (records s1) = length (uploads evs)"
    using s1(2) by (simp add: ledger_inv_def)
  have l3: "length (records s3) = length ?ups"
    using s3(2) by (simp add: ledger_inv_def)
  have u: "?ups = uploads evs @ (?tid, form, now_start) # uploads evs'"
    using uploads_append [of evs "?req # evs'"] by simp
  let ?p = "length (records s1)"
  have p: "?p < length ?ups" "?ups ! ?p = (?tid, form, now_start)"
    unfolding u l1 by simp_all
  have du: "distinct (map fst ?ups)" using assms(2) by (simp only: uploads_ids)
  have dn: "fst (processUpload_status cfg io form now (new_upload_status ?tid now_start))
      = ?fin now" for io now
    using processUpload_status_new [OF assms(1), of cfg io now ?tid now_start] by simp
  have fields: "Status (?fin now) = ''completed'' \<and> Error (?fin now) = []
      \<and> TransferStatus.TotalFiles (?fin now) = 0
      \<and> TransferStatus.ProcessedFiles (?fin now) = 0 \<and> Progress (?fin now) = 0" for now
    by (simp add: new_upload_status_def)
  have a1: "snd (handleUpload ''POST'' (Inr form) now_id now_start s1) = Started ?tid"
    by (simp add: handleUpload_def Let_def)
  have a2: "?p < length (records s3)" using p(1) l3 by simp
  have a3: "transfers s3 ?tid = Some ?p" using ledger_at(1) [OF s3(2) du p] .
  have a4: "if ?tid \<in> fst ` set (goroutines s3)
       then records s3 ! ?p = new_upload_status ?tid now_start
            \<and> (?tid, form) \<in> set (goroutines s3)
       else Status (records s3 ! ?p) = ''completed''
            \<and> Error (records s3 ! ?p) = []
            \<and> TransferStatus.TotalFiles (records s3 ! ?p) = 0
            \<and> TransferStatus.ProcessedFiles (records s3 ! ?p) = 0
            \<and> Progress (records s3 ! ?p) = 0"
  proof (cases "?tid \<in> fst ` set (goroutines s3)")
    case True
    then show ?thesis using ledger_at(2) [OF s3(2) du p] by simp
  next
    case False
    then obtain io now where "records s3 ! ?p
        = fst (processUpload_status cfg io form now (new_upload_status ?tid now_start))"
      using ledger_at(3) [OF s3(2) du p] by blast
    then have "records s3 ! ?p = ?fin now" using dn by simp
    then show ?thesis using False fields [of now] by simp
  qed
  have a5: "\<exists>s4.
                processUpload io ?tid form now
                  (s3\<lparr>goroutines := take k (goroutines s3) @ drop (Suc k) (goroutines s3)\<rparr>)
                  = Some (s4, [])
              \<and> serve (RunUpload k io now) s3 = Some s4
              \<and> ?tid \<notin> fst ` set (goroutines s4)
              \<and> transfers s4 ?tid = Some ?p
              \<and> Status (records s4 ! ?p) = ''completed''
              \<and> Error (records s4 ! ?p) = []
              \<and> TransferStatus.TotalFiles (records s4 ! ?p) = 0
              \<and> TransferStatus.ProcessedFiles (records s4 ! ?p) = 0
              \<and> Progress (records s4 ! ?p) = 0"
    if k: "k < length (goroutines s3)" and g: "fst (goroutines s3 ! k) = ?tid" for k io now
  proof -
    obtain s4 q t f st where r: "serve (RunUpload k io now) s3 = Some s4"
        "q < length ?ups" "?ups ! q = (t, f, st)" "goroutines s3 ! k = (t, f)"
        "processUpload io t f now
           (s3\<lparr>goroutines := take k (goroutines s3) @ drop (Suc k) (goroutines s3)\<rparr>)
         = Some (s4, concat (map (upload_calls cfg io)
                  (take (Suc (length (stored_parts cfg io (File f ''files''))))
                     (File f ''files''))))"
        "records s4 = (records s3)
           [q := fst (processUpload_status cfg io f now (new_upload_status t st))]"
        "transfers s4 = transfers s3"
        "t \<notin> fst ` set (goroutines s4)"
      using serve_run_ledger [OF s3(2) du k, of io now] by blast
    have t: "t = ?tid" using g r(4) by simp
    have "fst (?ups ! q) = fst (?ups ! ?p)" using r(3) p(2) t by simp
    then have q: "q = ?p"
      using du r(2) p(1) by (metis distinct_conv_nth length_map nth_map)
    have f: "f = form" and st: "st = now_start" using r(3) p(2) q by simp_all
    have calls: "concat (map (upload_calls cfg io)
                  (take (Suc (length (stored_parts cfg io (File form ''files''))))
                     (File form ''files''))) = []"
      using assms(1) by simp
    have rec: "records s4 ! ?p = ?fin now"
      unfolding r(6) q t f st using a2 dn by simp
    have b1: "processUpload io ?tid form now
                  (s3\<lparr>goroutines := take k (goroutines s3) @ drop (Suc k) (goroutines s3)\<rparr>)
                  = Some (s4, [])"
      using r(5) unfolding t f calls .
    have b2: "?tid \<notin> fst ` set (goroutines s4)" using r(8) t by simp
    have b3: "transfers s4 ?tid = Some ?p" using r(7) a3 by simp
    have b4: "Status (records s4 ! ?p) = ''completed''" "Error (records s4 ! ?p) = []"
      "TransferStatus.TotalFiles (records s4 ! ?p) = 0"
      "TransferStatus.ProcessedFiles (records s4 ! ?p) = 0"
      "Progress (records s4 ! ?p) = 0"
      unfolding rec using fields [of now] by simp_all
    show ?thesis using b1 r(1) b2 b3 b4 by (intro exI conjI)
  qed
  have a5': "\<forall>k io now. k < length (goroutines s3)
          \<longrightarrow> fst (goroutines s3 ! k) = ?tid
          \<longrightarrow> (\<exists>s4.
                processUpload io ?tid form now
                  (s3\<lparr>goroutines := take k (goroutines s3) @ drop (Suc k) (goroutines s3)\<rparr>)
                  = Some (s4, [])
              \<and> serve (RunUpload k io now) s3 = Some s4
              \<and> ?tid \<notin> fst ` set (goroutines s4)
              \<and> transfers s4 ?tid = Some ?p
              \<and> Status (records s4 ! ?p) = ''completed''
              \<and> Error (records s4 ! ?p) = []
              \<and> TransferStatus.TotalFiles (records s4 ! ?p) = 0
              \<and> TransferStatus.ProcessedFiles (records s4 ! ?p) = 0
              \<and> Progress (records s4 ! ?p) = 0)"
    using a5 by blast
  show ?thesis
    using s1(1) a1 s3(1) a2 a3 a4 a5' by (intro exI conjI)
qed

text \<open>
  An upload with one file part, then the upload without file parts, then the runs of
  both goroutines, that of the second upload first, and a status request.
\<close>

theorem empty_upload_completes_witness:
  "File \<lparr>Value = (\<lambda>k. []), File = (\<lambda>k. [])\<rparr> ''files'' = []
   \<and> distinct (upload_ids
        ([UploadRequest ''POST''
            (Inr \<lparr>Value = (\<lambda>k. []),
                  File = (\<lambda>k. [\<lparr>Filename = ''a.txt'', Size = 2, Open = Inr ''aa''\<rparr>])\<rparr>) 1 1]
         @ UploadRequest ''POST'' (Inr \<lparr>Value = (\<lambda>k. []), File = (\<lambda>k. [])\<rparr>) 2 2
         # [RunUpload 1 (\<lambda>c. None) 5, RunUpload 0 (\<lambda>c. None) 6,
            StatusRequest ''GET'' ''/api/status/transfer_2'']))
   \<and> (\<exists>s1 s3.
        serve_all
          [UploadRequest ''POST''
             (Inr \<lparr>Value = (\<lambda>k. []),
                   File = (\<lambda>k. [\<lparr>Filename = ''a.txt'', Size = 2, Open = Inr ''aa''\<rparr>])\<rparr>) 1 1]
          (NewServer \<lparr>StoragePath = ''uploads'', MaxFileSize = 100\<rparr>) = Some s1
      \<and> serve_all
          ([UploadRequest ''POST''
              (Inr \<lparr>Value = (\<lambda>k. []),
                    File = (\<lambda>k. [\<lparr>Filename = ''a.txt'', Size = 2, Open = Inr ''aa''\<rparr>])\<rparr>) 1 1]
           @ UploadRequest ''POST'' (Inr \<lparr>Value = (\<lambda>k. []), File = (\<lambda>k. [])\<rparr>) 2 2
           # [RunUpload 1 (\<lambda>c. None) 5, RunUpload 0 (\<lambda>c. None) 6,
              StatusRequest ''GET'' ''/api/status/transfer_2''])
          (NewServer \<lparr>StoragePath = ''uploads'', MaxFileSize = 100\<rparr>) = Some s3
      \<and> length (records s1) = 1
      \<and> goroutines s3 = []
      \<and> transfers s3 (generateTransferID 2) = Some 1
      \<and> Status (records s3 ! 1) = ''completed''
      \<and> Error (records s3 ! 1) = []
      \<and> TransferStatus.TotalFiles (records s3 ! 1) = 0
      \<and> TransferStatus.ProcessedFiles (records s3 ! 1) = 0
      \<and> Progress (records s3 ! 1) = 0)"
proof -
  let ?one = "\<lparr>Value = (\<lambda>k. []),
               File = (\<lambda>k. [\<lparr>Filename = ''a.txt'', Size = 2, Open = Inr ''aa''\<rparr>])\<rparr>"
  let ?none = "\<lparr>Value = (\<lambda>k. []), File = (\<lambda>k. [])\<rparr>"
  let ?evs = "[UploadRequest ''POST'' (Inr ?one) 1 1]"
  let ?evs' = "[RunUpload 1 (\<lambda>c. None) 5, RunUpload 0 (\<lambda>c. None) 6,
                StatusRequest ''GET'' ''/api/status/transfer_2'']"
  let ?cfg = "\<lparr>StoragePath = ''uploads'', MaxFileSize = 100\<rparr>"
  have h1: "File ?none ''files'' = []" by simp
  have ne: "generateTransferID 2 \<noteq> generateTransferID 1"
    by (simp add: generateTransferID_def decimal_def)
  have h2: "distinct (upload_ids (?evs @ UploadRequest ''POST'' (Inr ?none) 2 2 # ?evs'))"
    using ne by simp
  obtain s1 s3 where r: "serve_all ?evs (NewServer ?cfg) = Some s1"
      "serve_all (?evs @ UploadRequest ''POST'' (Inr ?none) 2 2 # ?evs') (NewServer ?cfg) = Some s3"
      "transfers s3 (generateTransferID 2) = Some (length (records s1))"
      "if generateTransferID 2 \<in> fst ` set (goroutines s3)
       then records s3 ! length (records s1) = new_upload_status (generateTransferID 2) 2
            \<and> (generateTransferID 2, ?none) \<in> set (goroutines s3)
       else Status (records s3 ! length (records s1)) = ''completed''
            \<and> Error (records s3 ! length (records s1)) = []
            \<and> TransferStatus.TotalFiles (records s3 ! length (records s1)) = 0
            \<and> TransferStatus.ProcessedFiles (records s3 ! length (records s1)) = 0
            \<and> Progress (records s3 ! length (records s1)) = 0"
    using empty_upload_completes [OF h1 h2, where cfg = ?cfg] by blast
  have l: "length (records s1) = 1"
    using r(1) by (auto simp: NewServer_def handleUpload_def Let_def)
  have g: "goroutines s3 = []"
    using r(2) ne
    by (auto simp: NewServer_def handleUpload_def Let_def processUpload_def
        case_prod_unfold)
  have f: "Status (records s3 ! 1) = ''completed''"
      "Error (records s3 ! 1) = []"
      "TransferStatus.TotalFiles (records s3 ! 1) = 0"
      "TransferStatus.ProcessedFiles (records s3 ! 1) = 0"
      "Progress (records s3 ! 1) = 0"
    using r(4) unfolding g l by simp_all
  have t: "transfers s3 (generateTransferID 2) = Some 1" using r(3) l by simp
  show ?thesis
    using h1 h2 r(1,2) l g t f by (intro exI conjI)
qed

text \<open>
  C10 as it is stated, for every upload request, fails when the clock gives another
  upload request the same identifier before the goroutine runs. When both goroutines
  have run, the record of the upload without file parts is still "running", and the
  record registered under its identifier has total file count 1, processed file count
  1 and progress 1.
\<close>

theorem colliding_empty_upload_stays_running:
  "map_option goroutines
     (serve_all
        [UploadRequest ''POST'' (Inr \<lparr>Value = (\<lambda>k. []), File = (\<lambda>k. [])\<rparr>) 5 5,
         UploadRequest ''POST''
           (Inr \<lparr>Value = (\<lambda>k. []),
                 File = (\<lambda>k. [\<lparr>Filename = ''a.txt'', Size = 4, Open = Inr ''aaaa''\<rparr>])\<rparr>) 5 6,
         RunUpload 0 (\<lambda>c. None) 7,
         RunUpload 0 (\<lambda>c. None) 8]
        (NewServer \<lparr>StoragePath = ''uploads'', MaxFileSize = 100\<rparr>)) = Some []
   \<and> map_option (\<lambda>s. Status (records s ! 0))
     (serve_all
        [UploadRequest ''POST'' (Inr \<lparr>Value = (\<lambda>k. []), File = (\<lambda>k. [])\<rparr>) 5 5,
         UploadRequest ''POST''
           (Inr \<lparr>Value = (\<lambda>k. []),
                 File = (\<lambda>k. [\<lparr>Filename = ''a.txt'', Size = 4, Open = Inr ''aaaa''\<rparr>])\<rparr>) 5 6,
         RunUpload 0 (\<lambda>c. None) 7,
         RunUpload 0 (\<lambda>c. None) 8]
        (NewServer \<lparr>StoragePath = ''uploads'', MaxFileSize = 100\<rparr>)) = Some ''running''
   \<and> map_option (\<lambda>s. map_option (\<lambda>p. (TransferStatus.TotalFiles (records s ! p),
                                          TransferStatus.ProcessedFiles (records s ! p),
                                          Progress (records s ! p)))
                     (transfers s (generateTransferID 5)))
     (serve_all
        [UploadRequest ''POST'' (Inr \<lparr>Value = (\<lambda>k. []), File = (\<lambda>k. [])\<rparr>) 5 5,
         UploadRequest ''POST''
           (Inr \<lparr>Value = (\<lambda>k. []),
                 File = (\<lambda>k. [\<lparr>Filename = ''a.txt'', Size = 4, Open = Inr ''aaaa''\<rparr>])\<rparr>) 5 6,
         RunUpload 0 (\<lambda>c. None) 7,
         RunUpload 0 (\<lambda>c. None) 8]
        (NewServer \<lparr>StoragePath = ''uploads'', MaxFileSize = 100\<rparr>)) = Some (Some (1, 1, 1))"
  by (simp add: NewServer_def handleUpload_def Let_def processUpload_def
      processUpload_status_def processUploadedFile_def new_upload_status_def)

section \<open>Integrity verifier: algorithm mismatch\<close>

text \<open>
  C7: when the algorithm of the expected hash differs from the algorithm of the
  verifier, \<^verbatim>\<open>VerifyReader\<close> returns false with the "hash algorithm mismatch" error
  and leaves the reader as it was: no byte has been read. When the algorithms agree and
  the digest computed from the stream differs from the expected one, it returns false
  with no error (and the stream has been consumed).
\<close>

theorem verify_algorithm_mismatch:
  "(Algorithm expectedHash \<noteq> hashType h \<longrightarrow>
      VerifyReader crypto h reader expectedHash =
        ((False, Some (''hash algorithm mismatch: expected '' @ Algorithm expectedHash
                         @ '', got '' @ hashType h)), reader))
   \<and> (Algorithm expectedHash = hashType h \<longrightarrow>
        HashReader crypto h reader = (Inr actualHash, reader')
        \<longrightarrow> FileHash.Value actualHash \<noteq> FileHash.Value expectedHash
        \<longrightarrow> VerifyReader crypto h reader expectedHash = ((False, None), reader')
            \<and> reader' = reader\<lparr>unread := []\<rparr>)"
  by (auto simp: VerifyReader_def HashReader_def split: if_splits option.splits)

theorem verify_algorithm_mismatch_witness:
  "Algorithm \<lparr>Algorithm = MD5, Value = ''00''\<rparr> \<noteq> hashType DefaultHasher
   \<and> VerifyReader \<lparr>md5_sum = (\<lambda>b. b), sha256_sum = (\<lambda>b. b)\<rparr> DefaultHasher
         \<lparr>unread = ''abc'', failure = None\<rparr> \<lparr>Algorithm = MD5, Value = ''00''\<rparr>
       = ((False, Some ''hash algorithm mismatch: expected md5, got sha256''),
          \<lparr>unread = ''abc'', failure = None\<rparr>)
   \<and> VerifyReader \<lparr>md5_sum = (\<lambda>b. b), sha256_sum = (\<lambda>b. b)\<rparr> DefaultHasher
         \<lparr>unread = ''abc'', failure = None\<rparr> \<lparr>Algorithm = SHA256, Value = ''00''\<rparr>
       = ((False, None), \<lparr>unread = [], failure = None\<rparr>)"
proof -
  let ?e = "\<lparr>Algorithm = MD5, FileHash.Value = ''00''\<rparr>"
  let ?e2 = "\<lparr>Algorithm = SHA256, FileHash.Value = ''00''\<rparr>"
  let ?r = "\<lparr>unread = ''abc'', failure = None\<rparr>"
  let ?c = "\<lparr>md5_sum = (\<lambda>b. b), sha256_sum = (\<lambda>b. b)\<rparr>"
  have h: "Algorithm ?e \<noteq> hashType DefaultHasher"
    by (simp add: DefaultHasher_def NewHasher_def MD5_def SHA256_def)
  have h2: "Algorithm ?e2 = hashType DefaultHasher"
    by (simp add: DefaultHasher_def NewHasher_def)
  have h3: "HashReader ?c DefaultHasher ?r
      = (Inr \<lparr>Algorithm = SHA256, FileHash.Value = ''616263''\<rparr>, \<lparr>unread = [], failure = None\<rparr>)"
    by (simp add: HashReader_def DefaultHasher_def NewHasher_def MD5_def SHA256_def hex_def)
  have h4: "FileHash.Value \<lparr>Algorithm = SHA256, FileHash.Value = ''616263''\<rparr> \<noteq> FileHash.Value ?e2"
    by simp
  show ?thesis
    using h h2 h3 h4
      verify_algorithm_mismatch [of ?e DefaultHasher ?c ?r]
      verify_algorithm_mismatch [of ?e2 DefaultHasher ?c ?r
        "\<lparr>Algorithm = SHA256, FileHash.Value = ''616263''\<rparr>" "\<lparr>unread = [], failure = None\<rparr>"]
    by (simp add: DefaultHasher_def NewHasher_def MD5_def SHA256_def)
qed

section \<open>Folder download: the failure policy of the decoding\<close>

lemma extract_entry_error_indep:
  "fst (extract_entry io lp e st) = entry_error io lp e"
  by (simp add: extract_entry_def entry_error_def Let_def split: option.splits)

lemma entry_error_restoring:
  "entry_error (restoring io) lp e = entry_error io lp e"
  by (simp add: extract_entry_def entry_error_def restoring_def Let_def split: option.splits)

lemma extract_entry_received:
  "fst (extract_entry io lp e st) = None \<Longrightarrow>
   received (snd (extract_entry io lp e st)) =
     (received st)\<lparr>TransferProgress.ProcessedFiles := TransferProgress.ProcessedFiles (received st) + 1,
                   TransferProgress.ProcessedSize := TransferProgress.ProcessedSize (received st) + int (length (payload e)),
                   TransferProgress.CurrentFile := Header.Name (header e)\<rparr>"
  by (simp add: extract_entry_def Let_def split: option.splits)

lemma extract_entry_received_fail:
  "fst (extract_entry io lp e st) = Some err \<Longrightarrow>
   received (snd (extract_entry io lp e st)) = received st"
  by (simp add: extract_entry_def Let_def split: option.splits)


lemma extract_entries_error:
  "fst (extract_entries io lp es end_error st) =
     (case find (\<lambda>e. entry_error io lp e \<noteq> None) es of
        Some e \<Rightarrow> entry_error io lp e
      | None \<Rightarrow> map_option ((@) ''failed to read tar header: '') end_error)"
proof (induction es arbitrary: st)
  case Nil
  then show ?case by (simp split: option.splits)
next
  case (Cons e es)
  obtain r st' where r: "extract_entry io lp e st = (r, st')" by (meson surj_pair)
  then have "r = entry_error io lp e"
    using extract_entry_error_indep [of io lp e st] by simp
  then show ?case using r Cons.IH [of st'] by (cases r) auto
qed

lemma extract_entries_processed:
  "TransferProgress.ProcessedFiles (received (snd (extract_entries io lp es end_error st))) =
     TransferProgress.ProcessedFiles (received st)
       + int (length (takeWhile (\<lambda>e. entry_error io lp e = None) es))"
proof (induction es arbitrary: st)
  case Nil
  then show ?case by (simp split: option.splits)
next
  case (Cons e es)
  obtain r st' where r: "extract_entry io lp e st = (r, st')" by (meson surj_pair)
  then have e: "r = entry_error io lp e"
    using extract_entry_error_indep [of io lp e st] by simp
  show ?case
  proof (cases r)
    case None
    then have "TransferProgress.ProcessedFiles (received st')
        = TransferProgress.ProcessedFiles (received st) + 1"
      using extract_entry_received [of io lp e st] r by simp
    then show ?thesis using None r e Cons.IH [of st'] by simp
  next
    case (Some err)
    then have "received st' = received st"
      using extract_entry_received_fail [of io lp e st err] r by simp
    then show ?thesis using Some r e by simp
  qed
qed

lemma extract_entries_restoring:
  "received st = received st' \<Longrightarrow>
   fst (extract_entries io lp es end_error st)
     = fst (extract_entries (restoring io) lp es end_error st')
   \<and> received (snd (extract_entries io lp es end_error st))
     = received (snd (extract_entries (restoring io) lp es end_error st'))"
proof (induction es arbitrary: st st')
  case Nil
  then show ?case by (simp split: option.splits)
next
  case (Cons e es)
  obtain r t where r: "extract_entry io lp e st = (r, t)" by (meson surj_pair)
  obtain r' t' where r': "extract_entry (restoring io) lp e st' = (r', t')" by (meson surj_pair)
  have e: "r = entry_error io lp e" "r' = entry_error io lp e"
    using extract_entry_error_indep [of io lp e st] r
      extract_entry_error_indep [of "restoring io" lp e st'] r' entry_error_restoring [of io lp e]
    by simp_all
  show ?case
  proof (cases r)
    case None
    then have "received t = received t'"
      using extract_entry_received [of io lp e st] extract_entry_received [of "restoring io" lp e st']
        r r' e Cons.prems by simp
    then show ?thesis using None r r' e Cons.IH [of t t'] by simp
  next
    case (Some err)
    then have "received t = received t'"
      using extract_entry_received_fail [of io lp e st err]
        extract_entry_received_fail [of "restoring io" lp e st' err] r r' e Cons.prems by simp
    then show ?thesis using Some r r' e by simp
  qed
qed

lemma find_none_all: "(\<forall>e \<in> set es. P e) \<Longrightarrow> find (\<lambda>e. \<not> P e) es = None"
  by (induction es) auto

lemma find_first_bad:
  "(\<forall>e \<in> set good. P e) \<Longrightarrow> \<not> P bad \<Longrightarrow> find (\<lambda>e. \<not> P e) (good @ bad # rest) = Some bad"
  by (induction good) auto

lemma takeWhile_first_bad:
  "(\<forall>e \<in> set good. P e) \<Longrightarrow> \<not> P bad \<Longrightarrow> takeWhile P (good @ bad # rest) = good"
  by (induction good) auto

lemma entry_error_payload:
  "io (MkdirAll (Dir (Join [lp, Header.Name (header e)]))) = None \<Longrightarrow>
   io (Create (Join [lp, Header.Name (header e)])) = None \<Longrightarrow>
   io (CopyTo (Join [lp, Header.Name (header e)]) (payload e)) = None \<Longrightarrow>
   payload_error e = Some err \<Longrightarrow>
   entry_error io lp e =
     Some (''failed to write file '' @ Join [lp, Header.Name (header e)] @ '': '' @ err)"
  by (simp add: entry_error_def extract_entry_def Let_def)

text \<open>
  C9: a failure to restore the mode or the modification time of a written file never
  changes what the decoding returns nor the progress it counts: both are what they are
  in the environment where these two calls always succeed. When no entry fails
  otherwise, every entry is counted as processed and the result is the error of the
  header read that ends the archive, if there is one. A payload that ends with an error
  makes the decoding return that error at once: the entries before it are counted, and
  neither it nor any later entry is.
\<close>

theorem decode_failure_policy:
  "fst (extract_entries io lp es end_error st)
     = fst (extract_entries (restoring io) lp es end_error st)
   \<and> received (snd (extract_entries io lp es end_error st))
     = received (snd (extract_entries (restoring io) lp es end_error st))
   \<and> ((\<forall>e \<in> set es. entry_error io lp e = None) \<longrightarrow>
        fst (extract_entries io lp es end_error st)
          = map_option ((@) ''failed to read tar header: '') end_error
        \<and> TransferProgress.ProcessedFiles (received (snd (extract_entries io lp es end_error st)))
          = TransferProgress.ProcessedFiles (received st) + int (length es))
   \<and> ((\<forall>e \<in> set good. entry_error io lp e = None)
        \<and> io (MkdirAll (Dir (Join [lp, Header.Name (header bad)]))) = None
        \<and> io (Create (Join [lp, Header.Name (header bad)])) = None
        \<and> io (CopyTo (Join [lp, Header.Name (header bad)]) (payload bad)) = None
        \<and> payload_error bad = Some err \<longrightarrow>
        fst (extract_entries io lp (good @ bad # rest) end_error st)
          = Some (''failed to write file '' @ Join [lp, Header.Name (header bad)] @ '': '' @ err)
        \<and> TransferProgress.ProcessedFiles
            (received (snd (extract_entries io lp (good @ bad # rest) end_error st)))
          = TransferProgress.ProcessedFiles (received st) + int (length good))"
proof -
  have a: "fst (extract_entries io lp es end_error st)
     = fst (extract_entries (restoring io) lp es end_error st)
   \<and> received (snd (extract_entries io lp es end_error st))
     = received (snd (extract_entries (restoring io) lp es end_error st))"
    using extract_entries_restoring [of st st io lp es end_error] by simp
  have b: "(\<forall>e \<in> set es. entry_error io lp e = None) \<longrightarrow>
        fst (extract_entries io lp es end_error st)
          = map_option ((@) ''failed to read tar header: '') end_error
        \<and> TransferProgress.ProcessedFiles (received (snd (extract_entries io lp es end_error st)))
          = TransferProgress.ProcessedFiles (received st) + int (length es)"
  proof
    assume ok: "\<forall>e \<in> set es. entry_error io lp e = None"
    have f1: "find (\<lambda>e. entry_error io lp e \<noteq> None) es = None"
      using find_none_all [of es "\<lambda>e. entry_error io lp e = None"] ok by simp
    have f2: "takeWhile (\<lambda>e. entry_error io lp e = None) es = es"
      using ok by (simp add: takeWhile_eq_all_conv)
    show "fst (extract_entries io lp es end_error st)
          = map_option ((@) ''failed to read tar header: '') end_error
        \<and> TransferProgress.ProcessedFiles (received (snd (extract_entries io lp es end_error st)))
          = TransferProgress.ProcessedFiles (received st) + int (length es)"
      unfolding extract_entries_error [of io lp es end_error st]
        extract_entries_processed [of io lp es end_error st] f1 f2 by simp
  qed
  have c: "(\<forall>e \<in> set good. entry_error io lp e = None)
        \<and> io (MkdirAll (Dir (Join [lp, Header.Name (header bad)]))) = None
        \<and> io (Create (Join [lp, Header.Name (header bad)])) = None
        \<and> io (CopyTo (Join [lp, Header.Name (header bad)]) (payload bad)) = None
        \<and> payload_error bad = Some err \<longrightarrow>
        fst (extract_entries io lp (good @ bad # rest) end_error st)
          = Some (''failed to write file '' @ Join [lp, Header.Name (header bad)] @ '': '' @ err)
        \<and> TransferProgress.ProcessedFiles
            (received (snd (extract_entries io lp (good @ bad # rest) end_error st)))
          = TransferProgress.ProcessedFiles (received st) + int (length good)"
  proof
    assume h: "(\<forall>e \<in> set good. entry_error io lp e = None)
        \<and> io (MkdirAll (Dir (Join [lp, Header.Name (header bad)]))) = None
        \<and> io (Create (Join [lp, Header.Name (header bad)])) = None
        \<and> io (CopyTo (Join [lp, Header.Name (header bad)]) (payload bad)) = None
        \<and> payload_error bad = Some err"
    then have e: "entry_error io lp bad =
        Some (''failed to write file '' @ Join [lp, Header.Name (header bad)] @ '': '' @ err)"
      using entry_error_payload [of io lp bad err] by simp
    have f: "find (\<lambda>e. entry_error io lp e \<noteq> None) (good @ bad # rest) = Some bad"
      using find_first_bad [of good "\<lambda>e. entry_error io lp e = None" bad rest] h e by simp
    have t: "takeWhile (\<lambda>e. entry_error io lp e = None) (good @ bad # rest) = good"
      using takeWhile_first_bad [of good "\<lambda>e. entry_error io lp e = None" bad rest] h e by simp
    show "fst (extract_entries io lp (good @ bad # rest) end_error st)
          = Some (''failed to write file '' @ Join [lp, Header.Name (header bad)] @ '': '' @ err)
        \<and> TransferProgress.ProcessedFiles
            (received (snd (extract_entries io lp (good @ bad # rest) end_error st)))
          = TransferProgress.ProcessedFiles (received st) + int (length good)"
      unfolding extract_entries_error [of io lp "good @ bad # rest" end_error st]
        extract_entries_processed [of io lp "good @ bad # rest" end_error st] f t
      using e by simp
  qed
  show ?thesis using a b c by blast
qed


theorem decode_failure_policy_witness:
  "entry_error (\<lambda>c. case c of Chmod p m \<Rightarrow> Some ''operation not permitted''
                             | Chtimes p t \<Rightarrow> Some ''operation not permitted'' | _ \<Rightarrow> None)
        ''out''
        \<lparr>header = \<lparr>Name = ''a.txt'', Size = 2, Mode = 420, ModTime = 7\<rparr>,
          payload = ''hi'', payload_error = None\<rparr> = None
   \<and> extract_entries (\<lambda>c. case c of Chmod p m \<Rightarrow> Some ''operation not permitted''
                             | Chtimes p t \<Rightarrow> Some ''operation not permitted'' | _ \<Rightarrow> None)
        ''out''
        [\<lparr>header = \<lparr>Name = ''a.txt'', Size = 2, Mode = 420, ModTime = 7\<rparr>,
          payload = ''hi'', payload_error = None\<rparr>] None empty_download
      = (None,
         \<lparr>received = \<lparr>TransferProgress.TotalFiles = 0, TransferProgress.ProcessedFiles = 1,
                      TransferProgress.TotalSize = 0, TransferProgress.ProcessedSize = 2,
                      TransferProgress.CurrentFile = ''a.txt''\<rparr>,
          disk = [''out/a.txt'' \<mapsto> \<lparr>content = ''hi'', perm = None, mtime = None\<rparr>],
          reported = [\<lparr>TransferProgress.TotalFiles = 0, TransferProgress.ProcessedFiles = 1,
                      TransferProgress.TotalSize = 0, TransferProgress.ProcessedSize = 2,
                      TransferProgress.CurrentFile = ''a.txt''\<rparr>],
          warnings = [''Failed to set permissions for out/a.txt: operation not permitted'',
                      ''Failed to set modification time for out/a.txt: operation not permitted'']\<rparr>)
   \<and> fst (extract_entries (\<lambda>c. case c of Chmod p m \<Rightarrow> Some ''operation not permitted''
                             | Chtimes p t \<Rightarrow> Some ''operation not permitted'' | _ \<Rightarrow> None)
        ''out''
        ([] @ \<lparr>header = \<lparr>Name = ''a.txt'', Size = 2, Mode = 420, ModTime = 7\<rparr>,
          payload = ''h'', payload_error = Some ''unexpected EOF''\<rparr> # []) None empty_download)
      = Some ''failed to write file out/a.txt: unexpected EOF''"
proof -
  let ?io = "\<lambda>c. case c of Chmod p m \<Rightarrow> Some ''operation not permitted''
                             | Chtimes p t \<Rightarrow> Some ''operation not permitted'' | _ \<Rightarrow> None"
  let ?e = "\<lparr>header = \<lparr>Name = ''a.txt'', Size = 2, Mode = 420, ModTime = 7\<rparr>,
                  payload = ''hi'', payload_error = None\<rparr>"
  let ?b = "\<lparr>header = \<lparr>Name = ''a.txt'', Size = 2, Mode = 420, ModTime = 7\<rparr>,
          payload = ''h'', payload_error = Some ''unexpected EOF''\<rparr>"
  have p: "Join [''out'', ''a.txt''] = ''out/a.txt''"
    by (simp add: Join_def Clean_def render_def is_rooted_def clean_elems_def Separator_def)
  have h: "entry_error ?io ''out'' ?e = None"
    by (simp add: entry_error_def extract_entry_def Let_def)
  have x: "extract_entries ?io ''out'' [?e] None empty_download
      = (None,
         \<lparr>received = \<lparr>TransferProgress.TotalFiles = 0, TransferProgress.ProcessedFiles = 1,
                      TransferProgress.TotalSize = 0, TransferProgress.ProcessedSize = 2,
                      TransferProgress.CurrentFile = ''a.txt''\<rparr>,
          disk = [''out/a.txt'' \<mapsto> \<lparr>content = ''hi'', perm = None, mtime = None\<rparr>],
          reported = [\<lparr>TransferProgress.TotalFiles = 0, TransferProgress.ProcessedFiles = 1,
                      TransferProgress.TotalSize = 0, TransferProgress.ProcessedSize = 2,
                      TransferProgress.CurrentFile = ''a.txt''\<rparr>],
          warnings = [''Failed to set permissions for out/a.txt: operation not permitted'',
                      ''Failed to set modification time for out/a.txt: operation not permitted'']\<rparr>)"
    by (simp add: extract_entry_def Let_def p empty_download_def)
  have y: "fst (extract_entries ?io ''out'' ([] @ ?b # []) None empty_download)
      = Some ''failed to write file out/a.txt: unexpected EOF''"
    using decode_failure_policy [of ?io "''out''" "[]" None empty_download "[]" ?b
        "''unexpected EOF''" "[]"] p
    by simp
  show ?thesis using h x y by blast
qed

section \<open>Folder upload: the dispatcher\<close>

lemma task_step_Launched:
  "tasks s = pre @ (fp, Launched) # post \<Longrightarrow>
   task_step env lp rp (length pre) s =
     (case Rel lp fp of
        Inl err \<Rightarrow>
          s\<lparr>tasks := pre @ (fp, Failing (''failed to get relative path for '' @ fp @ '': '' @ err)) # post\<rparr>
      | Inr relPath \<Rightarrow> s\<lparr>tasks := pre @ (fp, Uploading relPath) # post\<rparr>)"
  by (simp add: task_step_def split: sum.splits)

lemma task_step_Uploading:
  "tasks s = pre @ (fp, Uploading relPath) # post \<Longrightarrow>
   task_step env lp rp (length pre) s =
     (case UploadFile env fp (Join [rp, relPath]) of
        Some err \<Rightarrow>
          s\<lparr>tasks := pre @ (fp, Failing (''failed to upload '' @ fp @ '': '' @ err)) # post\<rparr>
      | None \<Rightarrow> s\<lparr>tasks := pre @ (fp, Succeeded relPath) # post\<rparr>)"
  by (simp add: task_step_def split: option.splits)

lemma task_step_Failing:
  "tasks s = pre @ (fp, Failing err) # post \<Longrightarrow>
   task_step env lp rp (length pre) s =
     s\<lparr>uploadErr := (if uploadErr s = None then Some err else uploadErr s),
       entered := entered s @ [(fp, Some err)],
       tasks := pre @ (fp, Releasing) # post\<rparr>"
  by (simp add: task_step_def)

lemma task_step_Succeeded:
  "tasks s = pre @ (fp, Succeeded relPath) # post \<Longrightarrow>
   tasks (task_step env lp rp (length pre) s) = pre @ (fp, Releasing) # post
   \<and> entered (task_step env lp rp (length pre) s) = entered s @ [(fp, None)]
   \<and> TransferProgress.ProcessedFiles (progress (task_step env lp rp (length pre) s))
       = TransferProgress.ProcessedFiles (progress s) + 1
   \<and> uploadErr (task_step env lp rp (length pre) s) = uploadErr s
   \<and> main (task_step env lp rp (length pre) s) = main s
   \<and> sem (task_step env lp rp (length pre) s) = sem s
   \<and> wg (task_step env lp rp (length pre) s) = wg s"
  by (simp add: task_step_def Let_def split: option.splits)

lemma task_step_Releasing:
  "tasks s = pre @ (fp, Releasing) # post \<Longrightarrow>
   task_step env lp rp (length pre) s =
     s\<lparr>sem := sem s - 1, tasks := pre @ (fp, Finishing) # post\<rparr>"
  by (simp add: task_step_def)

lemma task_step_Finishing:
  "tasks s = pre @ (fp, Finishing) # post \<Longrightarrow>
   task_step env lp rp (length pre) s = s\<lparr>wg := wg s - 1, tasks := pre @ post\<rparr>"
  by (simp add: task_step_def)

lemma tasks_split:
  assumes "i < length (tasks s)"
  obtains pre fp pc post where "tasks s = pre @ (fp, pc) # post" "i = length pre"
proof -
  obtain fp pc where "tasks s ! i = (fp, pc)" by (cases "tasks s ! i") auto
  then have "tasks s = take i (tasks s) @ (fp, pc) # drop (Suc i) (tasks s)"
    using assms by (metis id_take_nth_drop)
  moreover have "i = length (take i (tasks s))" using assms by simp
  ultimately show ?thesis using that by blast
qed

lemma slots_inv_main_step:
  assumes "slots_inv K s" "main_enabled K s"
  shows "slots_inv K (main_step s)"
proof (cases "main s")
  case (Dispatch files)
  then show ?thesis using assms
    by (cases files) (simp_all add: slots_inv_def main_step_def)
next
  case (Acquire fp files)
  then show ?thesis using assms by (simp add: slots_inv_def main_step_def)
next
  case (Spawn fp files)
  then show ?thesis using assms by (simp add: slots_inv_def main_step_def holds_slot_def)
next
  case Wait
  then show ?thesis using assms by (simp add: slots_inv_def main_step_def)
next
  case (Returned r)
  then show ?thesis using assms by (simp add: slots_inv_def main_step_def)
qed

lemma slots_inv_task_step:
  assumes inv: "slots_inv K s" and en: "enabled K (TaskStep i) s"
  shows "slots_inv K (task_step env lp rp i s)"
proof -
  have i: "i < length (tasks s)" using en by simp
  obtain pre fp pc post where t: "tasks s = pre @ (fp, pc) # post" "i = length pre"
    using tasks_split [OF i] by blast
  have nr: "\<forall>r. main s \<noteq> Returned r"
    using inv t by (auto simp: slots_inv_def)
  show ?thesis
  proof (cases pc)
    case Releasing
    then have "0 < sem s" using en t by simp
    then show ?thesis
      using inv t Releasing nr task_step_Releasing [of s pre fp post env lp rp]
      by (cases "main s") (auto simp: slots_inv_def holds_slot_def)
  next
    case Finishing
    then show ?thesis
      using inv t nr task_step_Finishing [of s pre fp post env lp rp]
      by (cases "main s") (auto simp: slots_inv_def holds_slot_def)
  next
    case Launched
    then show ?thesis
      using inv t nr task_step_Launched [of s pre fp post env lp rp]
      by (cases "main s") (auto simp: slots_inv_def holds_slot_def split: sum.splits)
  next
    case (Uploading rel)
    then show ?thesis
      using inv t nr task_step_Uploading [of s pre fp rel post env lp rp]
      by (cases "main s") (auto simp: slots_inv_def holds_slot_def split: option.splits)
  next
    case (Failing err)
    then show ?thesis
      using inv t nr task_step_Failing [of s pre fp err post env lp rp]
      by (cases "main s") (auto simp: slots_inv_def holds_slot_def)
  next
    case (Succeeded rel)
    then show ?thesis
      using inv t nr task_step_Succeeded [of s pre fp rel post env lp rp]
      by (cases "main s") (auto simp: slots_inv_def holds_slot_def)
  qed
qed

lemma slots_inv_step:
  "slots_inv K s \<Longrightarrow> slots_inv K (step K env lp rp a s)"
  using slots_inv_main_step slots_inv_task_step
  by (cases a) (auto simp: step_def)

lemma slots_inv_run:
  "slots_inv K s \<Longrightarrow> slots_inv K (run K env lp rp sched s)"
  unfolding run_def
  by (induction sched arbitrary: s) (auto simp: slots_inv_step)

lemma slots_inv_begin: "slots_inv K (UploadFolder_begin env lp tree)"
  by (simp add: UploadFolder_begin_def slots_inv_def Let_def split: prod.splits option.splits)

lemma uploading_le_slots:
  "length (filter (\<lambda>(fp, pc). case pc of Uploading r \<Rightarrow> True | _ \<Rightarrow> False) xs)
     \<le> length (filter (\<lambda>t. holds_slot (snd t)) xs)"
  by (induction xs) (auto simp: holds_slot_def split: task_pc.splits)

lemma active_le_slots:
  "active_transfers s \<le> length (filter (\<lambda>t. holds_slot (snd t)) (tasks s))"
  using uploading_le_slots [of "tasks s"] by (simp add: active_transfers_def)

text \<open>
  C2: whatever the directory, the number \<open>K\<close> of slots, the behaviour of the transfers
  and the order in which the goroutines take their steps, at no point are more than
  \<open>K\<close> per-file transfers under way; indeed never more than \<open>K\<close> workers hold a slot.
\<close>

theorem bounded_concurrency:
  "active_transfers (run K env lp rp sched (UploadFolder_begin env lp tree)) \<le> K
   \<and> length (filter (\<lambda>t. holds_slot (snd t))
        (tasks (run K env lp rp sched (UploadFolder_begin env lp tree)))) \<le> K"
proof -
  let ?s = "run K env lp rp sched (UploadFolder_begin env lp tree)"
  have "slots_inv K ?s" using slots_inv_run [OF slots_inv_begin] .
  then have "length (filter (\<lambda>t. holds_slot (snd t)) (tasks ?s)) \<le> K"
    by (auto simp: slots_inv_def)
  then show ?thesis using active_le_slots [of ?s] by simp
qed



lemma first_error_snoc_None: "first_error (es @ [(fp, None)]) = first_error es"
  by (simp add: first_error_def)

lemma first_error_snoc_Some:
  "first_error (es @ [(fp, Some e)]) = (if first_error es = None then Some e else first_error es)"
proof (cases "filter (\<lambda>r. r \<noteq> None) (map snd es)")
  case Nil
  then show ?thesis by (simp add: first_error_def)
next
  case (Cons r rs)
  then have "r \<in> set (filter (\<lambda>r. r \<noteq> None) (map snd es))" by simp
  then have "r \<noteq> None" by simp
  then show ?thesis using Cons by (auto simp: first_error_def)
qed

lemma account_inv_main_step:
  assumes inv: "account_inv env lp rp files s" and en: "main_enabled K s"
  shows "account_inv env lp rp files (main_step s)"
proof (cases "main s")
  case (Dispatch fs)
  then show ?thesis using inv
    by (cases fs) (simp_all add: account_inv_def main_step_def)
next
  case (Acquire fp fs)
  then show ?thesis using inv by (simp add: account_inv_def main_step_def)
next
  case (Spawn fp fs)
  then show ?thesis using inv by (simp add: account_inv_def main_step_def)
next
  case Wait
  then show ?thesis using inv by (simp add: account_inv_def main_step_def)
next
  case (Returned r)
  then show ?thesis using inv by (simp add: account_inv_def main_step_def)
qed

lemma account_inv_task_step:
  assumes inv: "account_inv env lp rp files s" and sl: "slots_inv K s"
    and en: "enabled K (TaskStep i) s"
  shows "account_inv env lp rp files (task_step env lp rp i s)"
proof -
  have i: "i < length (tasks s)" using en by simp
  obtain pre fp pc post where t: "tasks s = pre @ (fp, pc) # post" "i = length pre"
    using tasks_split [OF i] by blast
  have nr: "\<forall>r. main s \<noteq> Returned r"
    using sl t by (auto simp: slots_inv_def)
  have ok: "pc_ok env lp rp fp pc" using inv t by (simp add: account_inv_def)
  show ?thesis
  proof (cases pc)
    case Launched
    show ?thesis
    proof (cases "Rel lp fp")
      case (Inl err)
      then have "task_result env lp rp fp
          = Some (''failed to get relative path for '' @ fp @ '': '' @ err)"
        by (simp add: task_result_def)
      then show ?thesis
        using inv t nr Launched Inl task_step_Launched [of s pre fp post env lp rp]
        by (cases "main s") (auto simp: account_inv_def)
    next
      case (Inr rel)
      then show ?thesis
        using inv t nr Launched task_step_Launched [of s pre fp post env lp rp]
        by (cases "main s") (auto simp: account_inv_def)
    qed
  next
    case (Uploading rel)
    then have r: "Rel lp fp = Inr rel" using ok by simp
    show ?thesis
    proof (cases "UploadFile env fp (Join [rp, rel])")
      case None
      then have "task_result env lp rp fp = None" using r by (simp add: task_result_def)
      then show ?thesis
        using inv t nr Uploading None task_step_Uploading [of s pre fp rel post env lp rp]
        by (cases "main s") (auto simp: account_inv_def)
    next
      case (Some err)
      then have "task_result env lp rp fp = Some (''failed to upload '' @ fp @ '': '' @ err)"
        using r by (simp add: task_result_def)
      then show ?thesis
        using inv t nr Uploading Some task_step_Uploading [of s pre fp rel post env lp rp]
        by (cases "main s") (auto simp: account_inv_def)
    qed
  next
    case (Failing err)
    then have r: "task_result env lp rp fp = Some err" using ok by simp
    show ?thesis
      using inv t nr Failing r task_step_Failing [of s pre fp err post env lp rp]
      by (cases "main s") (auto simp: account_inv_def first_error_snoc_Some)
  next
    case (Succeeded rel)
    then have r: "task_result env lp rp fp = None" using ok by simp
    show ?thesis
      using inv t nr Succeeded r task_step_Succeeded [of s pre fp rel post env lp rp]
      by (cases "main s") (auto simp: account_inv_def first_error_snoc_None)
  next
    case Releasing
    then show ?thesis
      using inv t nr task_step_Releasing [of s pre fp post env lp rp]
      by (cases "main s") (auto simp: account_inv_def)
  next
    case Finishing
    then show ?thesis
      using inv t nr task_step_Finishing [of s pre fp post env lp rp]
      by (cases "main s") (auto simp: account_inv_def)
  qed
qed

lemma both_inv_step:
  assumes "slots_inv K s" "account_inv env lp rp files s"
  shows "slots_inv K (step K env lp rp a s) \<and> account_inv env lp rp files (step K env lp rp a s)"
proof (cases "enabled K a s")
  case False
  then show ?thesis using assms by (simp add: step_def)
next
  case True
  show ?thesis
  proof (cases a)
    case MainStep
    then show ?thesis
      using True assms slots_inv_main_step [of K s] account_inv_main_step [of env lp rp files s K]
      by (simp add: step_def)
  next
    case (TaskStep i)
    then show ?thesis
      using True assms slots_inv_task_step [of K s i env lp rp]
        account_inv_task_step [of env lp rp files s K i]
      by (simp add: step_def)
  qed
qed

lemma both_inv_run:
  "slots_inv K s \<Longrightarrow> account_inv env lp rp files s \<Longrightarrow>
   slots_inv K (run K env lp rp sched s) \<and> account_inv env lp rp files (run K env lp rp sched s)"
proof (induction sched arbitrary: s)
  case Nil
  then show ?case by (simp add: run_def)
next
  case (Cons a sched)
  have "slots_inv K (step K env lp rp a s) \<and> account_inv env lp rp files (step K env lp rp a s)"
    using both_inv_step [OF Cons.prems] .
  then show ?case using Cons.IH [of "step K env lp rp a s"] by (simp add: run_def)
qed

lemma account_inv_begin:
  "collectFiles lp tree = (files, None) \<Longrightarrow> files \<noteq> [] \<Longrightarrow>
   account_inv env lp rp files (UploadFolder_begin env lp tree)"
  by (simp add: UploadFolder_begin_def account_inv_def first_error_def)


lemma length_filter_mset_eq:
  "mset xs = mset ys \<Longrightarrow> length (filter P xs) = length (filter P ys)"
  by (metis mset_filter size_mset)

lemma filter_result_entered:
  "list_all (\<lambda>t. snd t = f (fst t)) es \<Longrightarrow>
   length (filter (\<lambda>t. snd t = None) es) = length (filter (\<lambda>fp. f fp = None) (map fst es))"
  by (induction es) auto

lemma first_error_exists:
  "list_all (\<lambda>t. snd t = f (fst t)) es \<Longrightarrow> fp \<in> fst ` set es \<Longrightarrow> f fp \<noteq> None \<Longrightarrow>
   first_error es \<noteq> None"
proof -
  assume a: "list_all (\<lambda>t. snd t = f (fst t)) es" "fp \<in> fst ` set es" "f fp \<noteq> None"
  then obtain t where t: "t \<in> set es" "fst t = fp" by auto
  then have "snd t = f fp" using a(1) by (auto simp: list_all_iff)
  moreover have "snd t \<in> snd ` set es" using t(1) by (rule imageI)
  ultimately have "snd t \<in> set (filter (\<lambda>r. r \<noteq> None) (map snd es))"
    using t a(3) by simp
  then have "filter (\<lambda>r. r \<noteq> None) (map snd es) \<noteq> []"
    by (metis empty_iff empty_set)
  then obtain r rs where c: "filter (\<lambda>r. r \<noteq> None) (map snd es) = r # rs"
    by (meson neq_Nil_conv)
  then have "r \<in> set (filter (\<lambda>r. r \<noteq> None) (map snd es))" by simp
  then have "r \<noteq> None" by simp
  then show ?thesis using c by (simp add: first_error_def)
qed

lemma returned_account:
  assumes sl: "slots_inv K s" and ac: "account_inv env lp rp files s"
    and ret: "main s = Returned r"
  shows "mset (map fst (entered s)) = mset files
    \<and> list_all (\<lambda>t. snd t = task_result env lp rp (fst t)) (entered s)
    \<and> TransferProgress.ProcessedFiles (progress s)
        = int (length (filter (\<lambda>fp. task_result env lp rp fp = None) files))
    \<and> r = first_error (entered s)
    \<and> ((\<exists>fp \<in> set files. task_result env lp rp fp \<noteq> None) \<longrightarrow> r \<noteq> None)"
proof -
  have t: "tasks s = []" using sl ret by (simp add: slots_inv_def)
  have m: "mset (map fst (entered s)) = mset files"
    using ac ret t by (simp add: account_inv_def)
  have l: "list_all (\<lambda>t. snd t = task_result env lp rp (fst t)) (entered s)"
    using ac by (simp add: account_inv_def)
  have "length (filter (\<lambda>t. snd t = None) (entered s))
      = length (filter (\<lambda>fp. task_result env lp rp fp = None) (map fst (entered s)))"
    using filter_result_entered [OF l] .
  also have "\<dots> = length (filter (\<lambda>fp. task_result env lp rp fp = None) files)"
    using length_filter_mset_eq [OF m] .
  finally have p: "TransferProgress.ProcessedFiles (progress s)
        = int (length (filter (\<lambda>fp. task_result env lp rp fp = None) files))"
    using ac by (simp add: account_inv_def)
  have r: "r = first_error (entered s)" using ac ret by (simp add: account_inv_def)
  have e: "(\<exists>fp \<in> set files. task_result env lp rp fp \<noteq> None) \<longrightarrow> r \<noteq> None"
  proof
    assume "\<exists>fp \<in> set files. task_result env lp rp fp \<noteq> None"
    then obtain fp where fp: "fp \<in> set files" "task_result env lp rp fp \<noteq> None" by blast
    have "set (map fst (entered s)) = set files" using m by (metis set_mset_mset)
    then have "fp \<in> fst ` set (entered s)" using fp(1) by simp
    then show "r \<noteq> None" using first_error_exists [OF l _ fp(2)] r by simp
  qed
  show ?thesis using m l p r e by blast
qed

lemma exists_slot_holder:
  "0 < length (filter (\<lambda>t. holds_slot (snd t)) xs) \<Longrightarrow>
   \<exists>i < length xs. holds_slot (snd (xs ! i))"
proof -
  assume "0 < length (filter (\<lambda>t. holds_slot (snd t)) xs)"
  then obtain x where "x \<in> set xs" "holds_slot (snd x)"
    by (metis filter_False length_greater_0_conv)
  then show ?thesis by (metis in_set_conv_nth)
qed

lemma some_step_enabled:
  assumes sl: "slots_inv K s" and k: "1 \<le> K" and nr: "\<forall>r. main s \<noteq> Returned r"
  shows "\<exists>a. enabled K a s"
proof (cases "main s")
  case (Dispatch fs)
  then have "enabled K MainStep s" by simp
  then show ?thesis by blast
next
  case (Spawn fp fs)
  then have "enabled K MainStep s" by simp
  then show ?thesis by blast
next
  case (Returned r)
  then show ?thesis using nr by simp
next
  case (Acquire fp fs)
  show ?thesis
  proof (cases "sem s < K")
    case True
    then have "enabled K MainStep s" using Acquire by simp
    then show ?thesis by blast
  next
    case False
    then have pos: "0 < sem s" using k by simp
    then have "0 < length (filter (\<lambda>t. holds_slot (snd t)) (tasks s))"
      using sl Acquire by (simp add: slots_inv_def)
    then obtain i where "i < length (tasks s)"
      using exists_slot_holder by blast
    then have "enabled K (TaskStep i) s" using pos by simp
    then show ?thesis by blast
  qed
next
  case Wait
  show ?thesis
  proof (cases "wg s = 0")
    case True
    then have "enabled K MainStep s" using Wait by simp
    then show ?thesis by blast
  next
    case False
    then have i: "0 < length (tasks s)" using sl Wait by (simp add: slots_inv_def)
    have "snd (tasks s ! 0) = Releasing \<longrightarrow> 0 < sem s"
    proof
      assume "snd (tasks s ! 0) = Releasing"
      then have "tasks s ! 0 \<in> set (filter (\<lambda>t. holds_slot (snd t)) (tasks s))"
        using i by (simp add: holds_slot_def)
      then have "0 < length (filter (\<lambda>t. holds_slot (snd t)) (tasks s))"
        by (metis length_pos_if_in_set)
      then show "0 < sem s" using sl by (simp add: slots_inv_def)
    qed
    then have "enabled K (TaskStep 0) s" using i by simp
    then show ?thesis by blast
  qed
qed

lemma weight_split:
  "tasks s = pre @ (fp, pc) # post \<Longrightarrow>
   weight s = main_weight (main s) + sum_list (map (\<lambda>t. task_weight (snd t)) pre)
                + task_weight pc + sum_list (map (\<lambda>t. task_weight (snd t)) post)"
  by (simp add: weight_def)

lemma weight_step:
  assumes en: "enabled K a s"
  shows "weight (step K env lp rp a s) < weight s"
proof (cases a)
  case MainStep
  then have m: "main_enabled K s" using en by simp
  show ?thesis
  proof (cases "main s")
    case (Dispatch fs)
    then show ?thesis using MainStep m
      by (cases fs) (simp_all add: step_def main_step_def weight_def)
  next
    case (Acquire fp fs)
    then show ?thesis using MainStep m by (simp add: step_def main_step_def weight_def)
  next
    case (Spawn fp fs)
    then show ?thesis using MainStep m by (simp add: step_def main_step_def weight_def)
  next
    case Wait
    then show ?thesis using MainStep m by (simp add: step_def main_step_def weight_def)
  next
    case (Returned r)
    then show ?thesis using m by simp
  qed
next
  case (TaskStep i)
  then have i: "i < length (tasks s)" using en by simp
  obtain pre fp pc post where t: "tasks s = pre @ (fp, pc) # post" "i = length pre"
    using tasks_split [OF i] by blast
  have st: "step K env lp rp a s = task_step env lp rp (length pre) s"
    using en TaskStep t by (simp add: step_def)
  show ?thesis
  proof (cases pc)
    case Launched
    then show ?thesis
      using t task_step_Launched [of s pre fp post env lp rp] weight_split [of s pre fp pc post]
      unfolding st by (auto simp: weight_def split: sum.splits)
  next
    case (Uploading rel)
    then show ?thesis
      using t task_step_Uploading [of s pre fp rel post env lp rp] weight_split [of s pre fp pc post]
      unfolding st by (auto simp: weight_def split: option.splits)
  next
    case (Failing err)
    then show ?thesis
      using t task_step_Failing [of s pre fp err post env lp rp] weight_split [of s pre fp pc post]
      unfolding st by (auto simp: weight_def)
  next
    case (Succeeded rel)
    then show ?thesis
      using t task_step_Succeeded [of s pre fp rel post env lp rp] weight_split [of s pre fp pc post]
      unfolding st by (auto simp: weight_def)
  next
    case Releasing
    then show ?thesis
      using t task_step_Releasing [of s pre fp post env lp rp] weight_split [of s pre fp pc post]
      unfolding st by (auto simp: weight_def)
  next
    case Finishing
    then show ?thesis
      using t task_step_Finishing [of s pre fp post env lp rp] weight_split [of s pre fp pc post]
      unfolding st by (auto simp: weight_def)
  qed
qed

lemma uploadErr_kept:
  assumes "uploadErr s = Some e"
  shows "uploadErr (step K env lp rp a s) = Some e"
proof (cases "enabled K a s")
  case False
  then show ?thesis using assms by (simp add: step_def)
next
  case True
  show ?thesis
  proof (cases a)
    case MainStep
    then show ?thesis using True assms
      by (cases "main s") (auto simp: step_def main_step_def split: list.splits)
  next
    case (TaskStep i)
    then have i: "i < length (tasks s)" using True by simp
    obtain pre fp pc post where t: "tasks s = pre @ (fp, pc) # post" "i = length pre"
      using tasks_split [OF i] by blast
    have st: "step K env lp rp a s = task_step env lp rp (length pre) s"
      using True TaskStep t by (simp add: step_def)
    show ?thesis
    proof (cases pc)
      case Launched
      then show ?thesis using t assms task_step_Launched [of s pre fp post env lp rp]
        unfolding st by (auto split: sum.splits)
    next
      case (Uploading rel)
      then show ?thesis using t assms task_step_Uploading [of s pre fp rel post env lp rp]
        unfolding st by (auto split: option.splits)
    next
      case (Failing err)
      then show ?thesis using t assms task_step_Failing [of s pre fp err post env lp rp]
        unfolding st by auto
    next
      case (Succeeded rel)
      then show ?thesis using t assms task_step_Succeeded [of s pre fp rel post env lp rp]
        unfolding st by auto
    next
      case Releasing
      then show ?thesis using t assms task_step_Releasing [of s pre fp post env lp rp]
        unfolding st by auto
    next
      case Finishing
      then show ?thesis using t assms task_step_Finishing [of s pre fp post env lp rp]
        unfolding st by auto
    qed
  qed
qed


theorem bounded_concurrency_witness:
  "active_transfers
     (run 2 \<lparr>stat_size = (\<lambda>f. Some 1), UploadFile = (\<lambda>l r. None)\<rparr> ''src'' ''dst''
        [MainStep, MainStep, MainStep, MainStep, MainStep, MainStep, TaskStep 0, TaskStep 1,
         MainStep, MainStep]
        (UploadFolder_begin \<lparr>stat_size = (\<lambda>f. Some 1), UploadFile = (\<lambda>l r. None)\<rparr> ''src''
           (Directory [(''a'', RegularFile ''x'' 420 0), (''b'', RegularFile ''y'' 420 0),
                       (''c'', RegularFile ''z'' 420 0)]))) = 2
   \<and> main
     (run 2 \<lparr>stat_size = (\<lambda>f. Some 1), UploadFile = (\<lambda>l r. None)\<rparr> ''src'' ''dst''
        [MainStep, MainStep, MainStep, MainStep, MainStep, MainStep, TaskStep 0, TaskStep 1,
         MainStep, MainStep]
        (UploadFolder_begin \<lparr>stat_size = (\<lambda>f. Some 1), UploadFile = (\<lambda>l r. None)\<rparr> ''src''
           (Directory [(''a'', RegularFile ''x'' 420 0), (''b'', RegularFile ''y'' 420 0),
                       (''c'', RegularFile ''z'' 420 0)]))) = Acquire ''src/c'' []
   \<and> active_transfers
     (run 2 \<lparr>stat_size = (\<lambda>f. Some 1), UploadFile = (\<lambda>l r. None)\<rparr> ''src'' ''dst''
        [MainStep, MainStep, MainStep, MainStep, MainStep, MainStep, TaskStep 0, TaskStep 1,
         MainStep, MainStep]
        (UploadFolder_begin \<lparr>stat_size = (\<lambda>f. Some 1), UploadFile = (\<lambda>l r. None)\<rparr> ''src''
           (Directory [(''a'', RegularFile ''x'' 420 0), (''b'', RegularFile ''y'' 420 0),
                       (''c'', RegularFile ''z'' 420 0)]))) \<le> 2"
proof -
  let ?env = "\<lparr>stat_size = (\<lambda>f. Some 1), UploadFile = (\<lambda>l r. None)\<rparr>"
  let ?tree = "Directory [(''a'', RegularFile ''x'' 420 0), (''b'', RegularFile ''y'' 420 0),
                       (''c'', RegularFile ''z'' 420 0)]"
  let ?sched = "[MainStep, MainStep, MainStep, MainStep, MainStep, MainStep, TaskStep 0,
                 TaskStep 1, MainStep, MainStep]"
  have a: "active_transfers (run 2 ?env ''src'' ''dst'' ?sched (UploadFolder_begin ?env ''src'' ?tree)) = 2"
    by code_simp
  have b: "main (run 2 ?env ''src'' ''dst'' ?sched (UploadFolder_begin ?env ''src'' ?tree))
      = Acquire ''src/c'' []"
    by code_simp
  show ?thesis
    using a b bounded_concurrency [of 2 ?env "''src''" "''dst''" ?sched ?tree] by simp
qed

text \<open>
  C3: a folder upload in which at least one file fails, with at least one slot. When
  the call has returned, every file of the list has been through the critical section
  of its own worker, with the result of its transfer (no file was skipped after the
  failure); the processed count is the number of files whose transfer succeeded; the
  error returned is the first that came to the error slot, and there is one. The call
  does return: as long as it has not, some goroutine can take a step, and every step
  lowers a bound on the steps left. An error in the slot is never replaced.
\<close>

theorem first_error_wins:
  assumes "collectFiles lp tree = (files, None)"
    and "\<exists>fp \<in> set files. task_result env lp rp fp \<noteq> None"
    and "1 \<le> K"
  shows "(main (run K env lp rp sched (UploadFolder_begin env lp tree)) = Returned r \<longrightarrow>
            mset (map fst (entered (run K env lp rp sched (UploadFolder_begin env lp tree))))
              = mset files
          \<and> list_all (\<lambda>t. snd t = task_result env lp rp (fst t))
              (entered (run K env lp rp sched (UploadFolder_begin env lp tree)))
          \<and> TransferProgress.ProcessedFiles
              (progress (run K env lp rp sched (UploadFolder_begin env lp tree)))
              = int (length (filter (\<lambda>fp. task_result env lp rp fp = None) files))
          \<and> r = first_error (entered (run K env lp rp sched (UploadFolder_begin env lp tree)))
          \<and> r \<noteq> None)
     \<and> ((\<forall>r. main (run K env lp rp sched (UploadFolder_begin env lp tree)) \<noteq> Returned r) \<longrightarrow>
            (\<exists>a. enabled K a (run K env lp rp sched (UploadFolder_begin env lp tree))))
     \<and> (enabled K a (run K env lp rp sched (UploadFolder_begin env lp tree)) \<longrightarrow>
            weight (step K env lp rp a (run K env lp rp sched (UploadFolder_begin env lp tree)))
              < weight (run K env lp rp sched (UploadFolder_begin env lp tree)))
     \<and> (uploadErr (run K env lp rp sched (UploadFolder_begin env lp tree)) = Some e \<longrightarrow>
            uploadErr (step K env lp rp a (run K env lp rp sched (UploadFolder_begin env lp tree)))
              = Some e)"
proof -
  let ?s = "run K env lp rp sched (UploadFolder_begin env lp tree)"
  have ne: "files \<noteq> []" using assms(2) by auto
  have inv: "slots_inv K ?s" "account_inv env lp rp files ?s"
    using both_inv_run [OF slots_inv_begin account_inv_begin [OF assms(1) ne]] by simp_all
  have a: "main ?s = Returned r \<longrightarrow>
            mset (map fst (entered ?s)) = mset files
          \<and> list_all (\<lambda>t. snd t = task_result env lp rp (fst t)) (entered ?s)
          \<and> TransferProgress.ProcessedFiles (progress ?s)
              = int (length (filter (\<lambda>fp. task_result env lp rp fp = None) files))
          \<and> r = first_error (entered ?s) \<and> r \<noteq> None"
    using returned_account [OF inv] assms(2) by blast
  have b: "(\<forall>r. main ?s \<noteq> Returned r) \<longrightarrow> (\<exists>a. enabled K a ?s)"
    using some_step_enabled [OF inv(1) assms(3)] by blast
  have c: "enabled K a ?s \<longrightarrow> weight (step K env lp rp a ?s) < weight ?s"
    using weight_step by blast
  have d: "uploadErr ?s = Some e \<longrightarrow> uploadErr (step K env lp rp a ?s) = Some e"
    using uploadErr_kept by blast
  show ?thesis using a b c d by blast
qed


theorem first_error_wins_witness:
  "collectFiles ''src''
     (Directory [(''a'', RegularFile ''x'' 420 0), (''b'', RegularFile ''y'' 420 0)])
     = ([''src/a'', ''src/b''], None)
   \<and> task_result
       \<lparr>stat_size = (\<lambda>f. Some 1), UploadFile = (\<lambda>l r. if l = ''src/a'' then Some ''boom'' else None)\<rparr>
       ''src'' ''dst'' ''src/a'' \<noteq> None
   \<and> (1::nat) \<le> 1
   \<and> main (run 1
       \<lparr>stat_size = (\<lambda>f. Some 1), UploadFile = (\<lambda>l r. if l = ''src/a'' then Some ''boom'' else None)\<rparr>
       ''src'' ''dst''
       [MainStep, MainStep, MainStep, TaskStep 0, TaskStep 0, TaskStep 0, TaskStep 0, TaskStep 0,
        MainStep, MainStep, MainStep, TaskStep 0, TaskStep 0, TaskStep 0, TaskStep 0, TaskStep 0,
        MainStep, MainStep]
       (UploadFolder_begin
          \<lparr>stat_size = (\<lambda>f. Some 1), UploadFile = (\<lambda>l r. if l = ''src/a'' then Some ''boom'' else None)\<rparr>
          ''src'' (Directory [(''a'', RegularFile ''x'' 420 0), (''b'', RegularFile ''y'' 420 0)])))
     = Returned (Some ''failed to upload src/a: boom'')
   \<and> TransferProgress.ProcessedFiles (progress (run 1
       \<lparr>stat_size = (\<lambda>f. Some 1), UploadFile = (\<lambda>l r. if l = ''src/a'' then Some ''boom'' else None)\<rparr>
       ''src'' ''dst''
       [MainStep, MainStep, MainStep, TaskStep 0, TaskStep 0, TaskStep 0, TaskStep 0, TaskStep 0,
        MainStep, MainStep, MainStep, TaskStep 0, TaskStep 0, TaskStep 0, TaskStep 0, TaskStep 0,
        MainStep, MainStep]
       (UploadFolder_begin
          \<lparr>stat_size = (\<lambda>f. Some 1), UploadFile = (\<lambda>l r. if l = ''src/a'' then Some ''boom'' else None)\<rparr>
          ''src'' (Directory [(''a'', RegularFile ''x'' 420 0), (''b'', RegularFile ''y'' 420 0)]))))
     = 1"
proof -
  let ?env = "\<lparr>stat_size = (\<lambda>f. Some 1),
                UploadFile = (\<lambda>l r. if l = ''src/a'' then Some ''boom'' else None)\<rparr>"
  let ?tree = "Directory [(''a'', RegularFile ''x'' 420 0), (''b'', RegularFile ''y'' 420 0)]"
  let ?sched = "[MainStep, MainStep, MainStep, TaskStep 0, TaskStep 0, TaskStep 0, TaskStep 0,
        TaskStep 0, MainStep, MainStep, MainStep, TaskStep 0, TaskStep 0, TaskStep 0, TaskStep 0,
        TaskStep 0, MainStep, MainStep]"
  let ?s = "run 1 ?env ''src'' ''dst'' ?sched (UploadFolder_begin ?env ''src'' ?tree)"
  have h1: "collectFiles ''src'' ?tree = ([''src/a'', ''src/b''], None)"
    by code_simp
  have h2: "task_result ?env ''src'' ''dst'' ''src/a'' \<noteq> None"
    by code_simp
  then have h2': "\<exists>fp \<in> set [''src/a'', ''src/b'']. task_result ?env ''src'' ''dst'' fp \<noteq> None"
    by simp
  have h3: "(1::nat) \<le> 1" by simp
  have m: "main ?s = Returned (Some ''failed to upload src/a: boom'')"
    by code_simp
  have f: "filter (\<lambda>fp. task_result ?env ''src'' ''dst'' fp = None) [''src/a'', ''src/b'']
      = [''src/b'']"
    by code_simp
  have "TransferProgress.ProcessedFiles (progress ?s)
      = int (length (filter (\<lambda>fp. task_result ?env ''src'' ''dst'' fp = None)
                       [''src/a'', ''src/b'']))"
    using first_error_wins [OF h1 h2' h3, where sched = ?sched
        and r = "Some ''failed to upload src/a: boom''"] m
    by blast
  then have p: "TransferProgress.ProcessedFiles (progress ?s) = 1"
    unfolding f by simp
  show ?thesis using h1 h2 h3 m p by blast
qed


section \<open>Folder upload: the empty source directory\<close>

lemma collect_only_directories:
  "only_directories tree \<Longrightarrow> Walk collect_entry p tree fs = (None, fs)"
  "only_directories_list es \<Longrightarrow> walk_entries collect_entry p es fs = (None, fs)"
  by (induction tree and es arbitrary: p fs and p fs
      rule: only_directories_only_directories_list.induct)
    (auto simp: collect_entry_def)

lemma run_returned:
  "main s = Returned r \<Longrightarrow> tasks s = [] \<Longrightarrow> run K env lp rp sched s = s"
proof (induction sched)
  case Nil
  then show ?case by (simp add: run_def)
next
  case (Cons a sched)
  have "step K env lp rp a s = s"
    using Cons.prems by (cases a) (simp_all add: step_def)
  then show ?case using Cons by (simp add: run_def)
qed

text \<open>
  C8, as the code has it: when the walk of the source directory succeeds and meets
  directories only, \<^verbatim>\<open>UploadFolder\<close> returns "no files found in directory" at once;
  no worker is ever started and no transfer is ever made, whatever is scheduled.
\<close>

theorem empty_directory_rejected:
  assumes "only_directories tree"
  shows "main (UploadFolder_begin env lp tree)
           = Returned (Some (''no files found in directory: '' @ lp))
    \<and> run K env lp rp sched (UploadFolder_begin env lp tree) = UploadFolder_begin env lp tree
    \<and> tasks (run K env lp rp sched (UploadFolder_begin env lp tree)) = []
    \<and> entered (run K env lp rp sched (UploadFolder_begin env lp tree)) = []"
proof -
  have c: "collectFiles lp tree = ([], None)"
    using collect_only_directories(1) [OF assms, of lp "[]"] by (simp add: collectFiles_def)
  have m: "main (UploadFolder_begin env lp tree)
           = Returned (Some (''no files found in directory: '' @ lp))"
    and t: "tasks (UploadFolder_begin env lp tree) = []"
    and e: "entered (UploadFolder_begin env lp tree) = []"
    using c by (simp_all add: UploadFolder_begin_def)
  have "run K env lp rp sched (UploadFolder_begin env lp tree) = UploadFolder_begin env lp tree"
    using run_returned [OF m t] .
  then show ?thesis using m t e by simp
qed

theorem empty_directory_rejected_witness:
  "only_directories (Directory [(''docs'', Directory []), (''tmp'', Directory [(''x'', Directory [])])])
   \<and> main (run 4 \<lparr>stat_size = (\<lambda>f. Some 1), UploadFile = (\<lambda>l r. None)\<rparr> ''src'' ''dst''
        [MainStep, TaskStep 0, MainStep]
        (UploadFolder_begin \<lparr>stat_size = (\<lambda>f. Some 1), UploadFile = (\<lambda>l r. None)\<rparr> ''src''
          (Directory [(''docs'', Directory []), (''tmp'', Directory [(''x'', Directory [])])])))
      = Returned (Some ''no files found in directory: src'')"
proof -
  let ?tree = "Directory [(''docs'', Directory []), (''tmp'', Directory [(''x'', Directory [])])]"
  have h: "only_directories ?tree" by simp
  show ?thesis
    using h empty_directory_rejected [OF h,
        where env = "\<lparr>stat_size = (\<lambda>f. Some 1), UploadFile = (\<lambda>l r. None)\<rparr>"
        and lp = "''src''" and K = 4 and rp = "''dst''"
        and sched = "[MainStep, TaskStep 0, MainStep]"]
    by simp
qed

text \<open>
  C8 as it is stated counts regular files, but \<^verbatim>\<open>collectFiles\<close> keeps every entry
  that is not a directory. A source directory whose only entry is a symbolic link
  (here to a file of three bytes) has no regular file; its upload is not refused: the
  link is dispatched to a worker, which starts the transfer.
\<close>

theorem directory_without_regular_files_is_dispatched:
  "count_regular (Directory [(''link'', Irregular 3 420 0 (Inr ''xyz''))]) = 0
   \<and> main (UploadFolder_begin \<lparr>stat_size = (\<lambda>f. Some 3), UploadFile = (\<lambda>l r. None)\<rparr> ''src''
        (Directory [(''link'', Irregular 3 420 0 (Inr ''xyz''))])) = Dispatch [''src/link'']
   \<and> tasks (run 1 \<lparr>stat_size = (\<lambda>f. Some 3), UploadFile = (\<lambda>l r. None)\<rparr> ''src'' ''dst''
        [MainStep, MainStep, MainStep, TaskStep 0]
        (UploadFolder_begin \<lparr>stat_size = (\<lambda>f. Some 3), UploadFile = (\<lambda>l r. None)\<rparr> ''src''
          (Directory [(''link'', Irregular 3 420 0 (Inr ''xyz''))])))
      = [(''src/link'', Uploading ''link'')]"
  by code_simp

section \<open>Archive round trip: what Clean, Join and Rel do on the paths of a walk\<close>

lemma split_sep_not_Nil: "split_sep s \<noteq> []"
  by (induction s) (auto split: list.splits)

lemma split_sep_append: "split_sep (a @ Separator # b) = split_sep a @ split_sep b"
proof (induction a)
  case Nil
  then show ?case by simp
next
  case (Cons c a)
  then show ?case using split_sep_not_Nil [of a] by (auto split: list.splits)
qed

lemma split_sep_name: "Separator \<notin> set n \<Longrightarrow> split_sep n = [n]"
  by (induction n) auto

lemma split_sep_no_sep: "e \<in> set (split_sep s) \<Longrightarrow> Separator \<notin> set e"
proof (induction s arbitrary: e)
  case Nil
  then show ?case by simp
next
  case (Cons c s)
  then show ?case using split_sep_not_Nil [of s]
    by (cases "split_sep s") (auto split: if_splits)
qed

lemma join_sep_Cons: "xs \<noteq> [] \<Longrightarrow> join_sep (x # xs) = x @ Separator # join_sep xs"
  by (cases xs) auto

lemma join_sep_append:
  "xs \<noteq> [] \<Longrightarrow> ys \<noteq> [] \<Longrightarrow> join_sep (xs @ ys) = join_sep xs @ Separator # join_sep ys"
proof (induction xs rule: join_sep.induct)
  case 1
  then show ?case by simp
next
  case (2 s)
  then show ?case by (simp add: join_sep_Cons)
next
  case (3 s t ss)
  then show ?case by simp
qed

lemma split_join:
  "xs \<noteq> [] \<Longrightarrow> \<forall>x \<in> set xs. Separator \<notin> set x \<Longrightarrow> split_sep (join_sep xs) = xs"
proof (induction xs rule: join_sep.induct)
  case 1
  then show ?case by simp
next
  case (2 s)
  then show ?case by (simp add: split_sep_name)
next
  case (3 s t ss)
  then show ?case by (simp add: split_sep_append split_sep_name)
qed

lemma valid_name_no_sep: "valid_name n \<Longrightarrow> Separator \<notin> set n"
  by (simp add: valid_name_def)

lemma dotdot_no_sep: "Separator \<notin> set ''..''"
  by (simp add: Separator_def)

lemma clean_stack_dotdots: "\<not> rooted \<Longrightarrow> list_all (\<lambda>x. x = ''..'') st \<Longrightarrow> clean_stack rooted st"
  by (induction st) auto

lemma clean_stack_elem:
  "clean_stack r st \<Longrightarrow> e \<in> set st \<Longrightarrow> e = ''..'' \<or> valid_name e"
proof (induction st)
  case Nil
  then show ?case by simp
next
  case (Cons x st)
  show ?case
  proof (cases "x = ''..''")
    case True
    then have "list_all (\<lambda>x. x = ''..'') st" using Cons.prems(1) by simp
    then have "\<forall>y \<in> set st. y = ''..''" by (simp add: list_all_iff)
    then show ?thesis using True Cons.prems(2) by auto
  next
    case False
    then have "valid_name x" "clean_stack r st" using Cons.prems(1) by simp_all
    then show ?thesis using Cons.IH Cons.prems(2) by auto
  qed
qed

lemma clean_stack_no_sep: "clean_stack r st \<Longrightarrow> e \<in> set st \<Longrightarrow> Separator \<notin> set e"
  using clean_stack_elem [of r st e] dotdot_no_sep valid_name_no_sep by blast

lemma clean_stack_nonempty: "clean_stack r st \<Longrightarrow> e \<in> set st \<Longrightarrow> e \<noteq> []"
  using clean_stack_elem [of r st e] by (auto simp: valid_name_def)

lemma clean_stack_tl: "clean_stack r (e # st) \<Longrightarrow> clean_stack r st"
  by (auto simp: clean_stack_dotdots split: if_splits)

lemma clean_elem_valid: "valid_name n \<Longrightarrow> clean_elem r n st = n # st"
  by (simp add: valid_name_def)

lemma clean_elem_stack:
  "clean_stack r st \<Longrightarrow> Separator \<notin> set e \<Longrightarrow> clean_stack r (clean_elem r e st)"
proof (cases "e = [] \<or> e = ''.''")
  case True
  assume "clean_stack r st"
  then show ?thesis using True by auto
next
  case False
  assume a: "clean_stack r st" "Separator \<notin> set e"
  show ?thesis
  proof (cases "e = ''..''")
    case True
    then show ?thesis using a clean_stack_tl [of r _ "tl st"]
      by (cases st) (auto split: if_splits)
  next
    case f: False
    then have "valid_name e" using False a by (simp add: valid_name_def)
    then show ?thesis using a f by (simp add: valid_name_def)
  qed
qed

lemma clean_elems_stack:
  "clean_stack r st \<Longrightarrow> \<forall>e \<in> set es. Separator \<notin> set e \<Longrightarrow> clean_stack r (clean_elems r es st)"
  unfolding clean_elems_def
  by (induction es arbitrary: st) (auto simp: clean_elem_stack simp del: clean_elem.simps)

lemma clean_elems_append:
  "clean_elems r (xs @ ys) st = clean_elems r ys (clean_elems r xs st)"
  by (simp add: clean_elems_def)

lemma clean_elems_valid:
  "\<forall>n \<in> set ns. valid_name n \<Longrightarrow> clean_elems r ns st = rev ns @ st"
  unfolding clean_elems_def
  by (induction ns arbitrary: st) (auto simp: clean_elem_valid simp del: clean_elem.simps)

lemma clean_elems_fixed: "clean_stack r st \<Longrightarrow> clean_elems r (rev st) [] = st"
proof (induction st)
  case Nil
  then show ?case by (simp add: clean_elems_def)
next
  case (Cons e st)
  have st: "clean_stack r st" using Cons.prems clean_stack_tl by blast
  have "clean_elems r (rev (e # st)) [] = clean_elem r e (clean_elems r (rev st) [])"
    by (simp add: clean_elems_def)
  also have "\<dots> = clean_elem r e st" using Cons.IH [OF st] by simp
  also have "\<dots> = e # st"
  proof (cases "e = ''..''")
    case True
    then show ?thesis using Cons.prems by (cases st) auto
  next
    case False
    then show ?thesis using Cons.prems by (simp add: valid_name_def)
  qed
  finally show ?case .
qed


lemma clean_stack_valid: "\<forall>n \<in> set ns. valid_name n \<Longrightarrow> clean_stack r st \<Longrightarrow> clean_stack r (rev ns @ st)"
proof (induction ns arbitrary: st)
  case Nil
  then show ?case by simp
next
  case (Cons n ns)
  have "clean_stack r (n # st)" using Cons.prems by (simp add: valid_name_def)
  then have "clean_stack r (rev ns @ n # st)" using Cons.IH Cons.prems(1) by simp
  then show ?case by simp
qed

lemma join_sep_prefix: "\<exists>rest. join_sep (x # xs) = x @ rest"
  by (cases xs) auto

lemma is_rooted_join:
  assumes "x \<noteq> []" "Separator \<notin> set x"
  shows "join_sep (x # xs) \<noteq> [] \<and> \<not> is_rooted (join_sep (x # xs))"
proof -
  obtain rest where r: "join_sep (x # xs) = x @ rest" using join_sep_prefix by blast
  obtain c cs where c: "x = c # cs" using assms(1) by (cases x) auto
  then have "c \<noteq> Separator" using assms(2) by auto
  then show ?thesis using r c by (simp add: is_rooted_def)
qed

lemma render_facts:
  assumes "clean_stack r st"
  shows "render r st \<noteq> [] \<and> is_rooted (render r st) = r
         \<and> clean_elems r (split_sep (render r st)) [] = st"
proof (cases "st = []")
  case True
  then show ?thesis
    by (cases r) (simp_all add: render_def is_rooted_def clean_elems_def Separator_def)
next
  case False
  then have ne: "rev st \<noteq> []" by simp
  have ns: "\<forall>x \<in> set (rev st). Separator \<notin> set x"
    using assms clean_stack_no_sep by auto
  have sp: "split_sep (join_sep (rev st)) = rev st" using split_join [OF ne ns] .
  have fx: "clean_elems r (rev st) [] = st" using clean_elems_fixed [OF assms] .
  obtain x xs where x: "rev st = x # xs" using ne by (cases "rev st") auto
  then have "x \<in> set st" by (metis list.set_intros(1) set_rev)
  then have "x \<noteq> []" "Separator \<notin> set x"
    using assms clean_stack_nonempty clean_stack_no_sep by auto
  then have j: "join_sep (rev st) \<noteq> [] \<and> \<not> is_rooted (join_sep (rev st))"
    using is_rooted_join [of x xs] x by simp
  show ?thesis
  proof (cases r)
    case True
    have "split_sep (Separator # join_sep (rev st)) = [] # rev st"
      using sp by simp
    then have "clean_elems r (split_sep (Separator # join_sep (rev st))) [] = st"
      using fx by (simp add: clean_elems_def)
    then show ?thesis using True by (simp add: render_def is_rooted_def)
  next
    case f: False
    then show ?thesis using False j sp fx by (simp add: render_def)
  qed
qed

lemma Clean_render: "clean_stack r st \<Longrightarrow> Clean (render r st) = render r st"
  using render_facts [of r st] by (simp add: Clean_def)

lemma Clean_is_render: "\<exists>r st. clean_stack r st \<and> Clean p = render r st"
proof (cases "p = []")
  case True
  have "clean_stack False []" by simp
  moreover have "Clean p = render False []" using True by (simp add: Clean_def render_def)
  ultimately show ?thesis by blast
next
  case False
  have "clean_stack (is_rooted p) (clean_elems (is_rooted p) (split_sep p) [])"
    using clean_elems_stack [of "is_rooted p" "[]" "split_sep p"] split_sep_no_sep by simp
  then show ?thesis using False by (auto simp: Clean_def)
qed

lemma render_inj:
  "clean_stack r st \<Longrightarrow> clean_stack r st' \<Longrightarrow> render r st = render r st' \<Longrightarrow> st = st'"
  using render_facts [of r st] render_facts [of r st'] by metis

lemma is_rooted_append: "p \<noteq> [] \<Longrightarrow> is_rooted (p @ q) = is_rooted p"
  by (cases p) (simp_all add: is_rooted_def)

lemma Clean_append_names:
  assumes "clean_stack r st" and "ns \<noteq> []" and "\<forall>n \<in> set ns. valid_name n"
  shows "Clean (render r st @ Separator # join_sep ns) = render r (rev ns @ st)"
proof -
  let ?p = "render r st"
  have f: "?p \<noteq> []" "is_rooted ?p = r" "clean_elems r (split_sep ?p) [] = st"
    using render_facts [OF assms(1)] by simp_all
  have nsep: "\<forall>x \<in> set ns. Separator \<notin> set x" using assms(3) valid_name_no_sep by blast
  have "split_sep (?p @ Separator # join_sep ns) = split_sep ?p @ ns"
    using split_join [OF assms(2) nsep] by (simp add: split_sep_append)
  then have "clean_elems r (split_sep (?p @ Separator # join_sep ns)) [] = rev ns @ st"
    using f(3) clean_elems_valid [OF assms(3)] by (simp add: clean_elems_append)
  moreover have "is_rooted (?p @ Separator # join_sep ns) = r"
    using f(1,2) is_rooted_append by simp
  ultimately show ?thesis using f(1) by (simp add: Clean_def)
qed

lemma Join_child:
  assumes "clean_stack r st" and "valid_name n"
  shows "Join [render r st, n] = render r (n # st)"
proof -
  have "render r st \<noteq> []" using render_facts [OF assms(1)] by simp
  then have "Join [render r st, n] = Clean (render r st @ Separator # n)"
    by (simp add: Join_def)
  then show ?thesis using Clean_append_names [OF assms(1), of "[n]"] assms(2) by simp
qed


lemma drop_common_prefix: "drop_common xs (xs @ ys) = ([], ys)"
proof (induction xs)
  case Nil
  then show ?case by (cases ys) simp_all
next
  case (Cons x xs)
  then show ?case by simp
qed

lemma path_elems_render:
  assumes "clean_stack r st" and "st \<noteq> []"
  shows "path_elems (render r st) = rev st"
proof -
  have ne: "rev st \<noteq> []" using assms(2) by simp
  have ns: "\<forall>x \<in> set (rev st). Separator \<notin> set x"
    using assms(1) clean_stack_no_sep by auto
  have sp: "split_sep (join_sep (rev st)) = rev st" using split_join [OF ne ns] .
  obtain x xs where x: "rev st = x # xs" using ne by (cases "rev st") auto
  then have "x \<in> set st" by (metis list.set_intros(1) set_rev)
  then have "x \<noteq> []" "Separator \<notin> set x"
    using assms(1) clean_stack_nonempty clean_stack_no_sep by auto
  then have j: "join_sep (rev st) \<noteq> [] \<and> \<not> is_rooted (join_sep (rev st))"
    using is_rooted_join [of x xs] x by simp
  show ?thesis
  proof (cases r)
    case True
    then show ?thesis using j sp by (simp add: path_elems_def render_def is_rooted_def)
  next
    case False
    then show ?thesis using j sp assms(2) by (simp add: path_elems_def render_def)
  qed
qed

lemma Rel_walk:
  assumes cs: "clean_stack r st" and ne: "ns \<noteq> []" and vn: "\<forall>n \<in> set ns. valid_name n"
  shows "Rel (render r st) (render r (rev ns @ st)) = Inr (join_sep ns)"
proof -
  let ?base = "render r st" and ?targ = "render r (rev ns @ st)"
  have ct: "clean_stack r (rev ns @ st)" using clean_stack_valid [OF vn cs] .
  have cb: "Clean ?base = ?base" using Clean_render [OF cs] .
  have cg: "Clean ?targ = ?targ" using Clean_render [OF ct] .
  have neq: "?targ \<noteq> ?base"
  proof
    assume "?targ = ?base"
    then have "rev ns @ st = st" using render_inj [OF ct cs] by simp
    then show False using ne by simp
  qed
  have rt: "is_rooted ?targ = r" using render_facts [OF ct] by simp
  have et: "path_elems ?targ = rev st @ ns"
    using path_elems_render [OF ct] ne by simp
  let ?base' = "if ?base = ''.'' then [] else ?base"
  have rb: "is_rooted ?base' = r \<and> path_elems ?base' = rev st"
  proof (cases "st = []")
    case True
    then show ?thesis
      by (cases r) (simp_all add: render_def is_rooted_def path_elems_def Separator_def)
  next
    case False
    have "?base \<noteq> ''.''"
    proof
      assume d: "?base = ''.''"
      have "render r [] = ''.'' \<Longrightarrow> \<not> r" by (auto simp: render_def Separator_def)
      have "clean_elems r (split_sep ?base) [] = st" using render_facts [OF cs] by simp
      then have "st = []" using d by (simp add: clean_elems_def Separator_def)
      then show False using False by simp
    qed
    then show ?thesis
      using render_facts [OF cs] path_elems_render [OF cs False] by simp
  qed
  have "drop_common (path_elems ?base') (path_elems ?targ) = ([], ns)"
    using rb et drop_common_prefix by simp
  then show ?thesis
    unfolding Rel_def cb cg using neq rb rt by (simp add: Let_def)
qed

lemma Join_decode:
  assumes ne: "ns \<noteq> []" and vn: "\<forall>n \<in> set ns. valid_name n"
  shows "Join [lp, join_sep ns] =
     render (is_rooted lp)
       (rev ns @ (if lp = [] then [] else clean_elems (is_rooted lp) (split_sep lp) []))"
proof (cases "lp = []")
  case True
  have c: "clean_stack False (rev ns @ [])" using clean_stack_valid [OF vn, of False "[]"] by simp
  obtain n ns' where n: "ns = n # ns'" using ne by (cases ns) auto
  then have "n \<noteq> []" "Separator \<notin> set n" using vn by (simp_all add: valid_name_def)
  then have j: "join_sep ns \<noteq> []" using is_rooted_join [of n ns'] n by simp
  have "render False (rev ns) = join_sep ns" using ne by (simp add: render_def)
  then have "Clean (join_sep ns) = join_sep ns" using Clean_render [OF c] by simp
  then show ?thesis using True j ne by (simp add: Join_def is_rooted_def render_def)
next
  case False
  let ?r = "is_rooted lp"
  let ?st = "clean_elems ?r (split_sep lp) []"
  have nsep: "\<forall>x \<in> set ns. Separator \<notin> set x" using vn valid_name_no_sep by blast
  have "split_sep (lp @ Separator # join_sep ns) = split_sep lp @ ns"
    using split_join [OF ne nsep] by (simp add: split_sep_append)
  then have "clean_elems ?r (split_sep (lp @ Separator # join_sep ns)) [] = rev ns @ ?st"
    using clean_elems_valid [OF vn] by (simp add: clean_elems_append)
  moreover have "is_rooted (lp @ Separator # join_sep ns) = ?r"
    using False is_rooted_append by simp
  ultimately have "Clean (lp @ Separator # join_sep ns) = render ?r (rev ns @ ?st)"
    by (simp add: Clean_def)
  then show ?thesis using False by (simp add: Join_def)
qed

lemma decode_base_clean:
  "clean_stack (is_rooted lp) (if lp = [] then [] else clean_elems (is_rooted lp) (split_sep lp) [])"
  using clean_elems_stack [of "is_rooted lp" "[]" "split_sep lp"] split_sep_no_sep by simp

lemma Join_decode_inj:
  assumes "ns \<noteq> []" "\<forall>n \<in> set ns. valid_name n" "ms \<noteq> []" "\<forall>n \<in> set ms. valid_name n"
    and "Join [lp, join_sep ns] = Join [lp, join_sep ms]"
  shows "ns = ms"
proof -
  let ?r = "is_rooted lp"
  let ?st = "if lp = [] then [] else clean_elems ?r (split_sep lp) []"
  have c: "clean_stack ?r ?st" using decode_base_clean .
  have "render ?r (rev ns @ ?st) = render ?r (rev ms @ ?st)"
    using assms Join_decode [of ns lp] Join_decode [of ms lp] by simp
  then have "rev ns @ ?st = rev ms @ ?st"
    using render_inj [OF clean_stack_valid [OF assms(2) c] clean_stack_valid [OF assms(4) c]]
    by simp
  then show ?thesis by simp
qed

section \<open>Archive round trip: encoding a tree and decoding the archive\<close>

text \<open>
  The walk over a tree of directories and regular files writes the entries of its
  regular files, in the order of the walk, each named by its path relative to the root.
\<close>

lemma archive_regular_file:
  assumes cs: "clean_stack r st" and ne: "ns \<noteq> []" and vn: "\<forall>n \<in> set ns. valid_name n"
    and m: "missing tw = 0"
  shows "archive_entry (render r st) (render r (rev ns @ st))
           (lstat (RegularFile bytes mode mt)) (RegularFile bytes mode mt) None tw
         = (None, tw\<lparr>written := written tw @ [archived (ns, bytes, mode, mt)]\<rparr>)"
proof -
  have rel: "Rel (render r st) (render r (rev ns @ st)) = Inr (join_sep ns)"
    using Rel_walk [OF cs ne vn] .
  let ?hdr = "\<lparr>Name = join_sep ns, Header.Size = int (length bytes), Mode = mode, ModTime = mt\<rparr>"
  let ?tw1 = "\<lparr>written = written tw @ [\<lparr>header = ?hdr, payload = [], payload_error = None\<rparr>],
               missing = int (length bytes)\<rparr>"
  have wh: "WriteHeader ?hdr tw = (None, ?tw1)"
    using m by (simp add: WriteHeader_def)
  have wp: "write_payload bytes ?tw1
      = (None, \<lparr>written = written tw @ [archived (ns, bytes, mode, mt)], missing = 0\<rparr>)"
    by (simp add: write_payload_def archived_def Let_def)
  have "tw\<lparr>written := written tw @ [archived (ns, bytes, mode, mt)]\<rparr>
      = \<lparr>written = written tw @ [archived (ns, bytes, mode, mt)], missing = 0\<rparr>"
    using m by simp
  then show ?thesis
    using rel wh wp by (simp add: archive_entry_def)
qed


lemma archive_walk:
  "regular_tree node \<Longrightarrow> clean_stack r st \<Longrightarrow> \<forall>n \<in> set ns. valid_name n \<Longrightarrow>
   (ns \<noteq> [] \<or> (\<exists>es. node = Directory es)) \<Longrightarrow> missing tw = 0 \<Longrightarrow>
   Walk (archive_entry (render r st)) (render r (rev ns @ st)) node tw
     = (None, tw\<lparr>written := written tw
                 @ map (\<lambda>(names, file). archived (ns @ names, file)) (tree_files node)\<rparr>)"
  "regular_entries entries \<Longrightarrow> clean_stack r st \<Longrightarrow> \<forall>n \<in> set ns. valid_name n \<Longrightarrow>
   missing tw = 0 \<Longrightarrow>
   walk_entries (archive_entry (render r st)) (render r (rev ns @ st)) entries tw
     = (None, tw\<lparr>written := written tw
                 @ map (\<lambda>(names, file). archived (ns @ names, file)) (entries_files entries)\<rparr>)"
proof (induction node and entries arbitrary: ns tw and ns tw
    rule: regular_tree_regular_entries.induct)
  case (1 entries)
  have "archive_entry (render r st) (render r (rev ns @ st)) (lstat (Directory entries))
          (Directory entries) None tw = (None, tw)"
    by (simp add: archive_entry_def)
  then show ?case using 1 by simp
next
  case (2 bytes mode mt)
  then have ne: "ns \<noteq> []" by simp
  show ?case
    using archive_regular_file [OF "2.prems"(2) ne "2.prems"(3) "2.prems"(5)] by simp
next
  case (3 sz mode mt data)
  then show ?case by simp
next
  case (4 err)
  then show ?case by simp
next
  case (5 err)
  then show ?case by simp
next
  case 6
  then show ?case by simp
next
  case (7 name node entries)
  have vn: "valid_name name" and rt: "regular_tree node" and re: "regular_entries entries"
    using "7.prems"(1) by simp_all
  have cs: "clean_stack r (rev ns @ st)"
    using clean_stack_valid [OF "7.prems"(3) "7.prems"(2)] .
  have j: "Join [render r (rev ns @ st), name] = render r (rev (ns @ [name]) @ st)"
    using Join_child [OF cs vn] by simp
  have vn': "\<forall>n \<in> set (ns @ [name]). valid_name n" using "7.prems"(3) vn by simp
  let ?tw1 = "tw\<lparr>written := written tw
                 @ map (\<lambda>(names, file). archived ((ns @ [name]) @ names, file)) (tree_files node)\<rparr>"
  have w1: "Walk (archive_entry (render r st)) (render r (rev (ns @ [name]) @ st)) node tw
      = (None, ?tw1)"
    using "7.IH"(1) [OF rt "7.prems"(2) vn' _ "7.prems"(4)] by simp
  have m1: "missing ?tw1 = 0" using "7.prems"(4) by simp
  have w2: "walk_entries (archive_entry (render r st)) (render r (rev ns @ st)) entries ?tw1
      = (None, ?tw1\<lparr>written := written ?tw1
                 @ map (\<lambda>(names, file). archived (ns @ names, file)) (entries_files entries)\<rparr>)"
    using "7.IH"(2) [OF re "7.prems"(2) "7.prems"(3) m1] .
  have e: "map (\<lambda>(names, file). archived (ns @ names, file))
             (map (\<lambda>(names, file). (name # names, file)) (tree_files node))
         = map (\<lambda>(names, file). archived ((ns @ [name]) @ names, file)) (tree_files node)"
    by (simp add: case_prod_unfold)
  show ?case
    using j w1 w2 e by simp
qed


lemma extract_archived:
  "fst (extract_entry (\<lambda>call. None) lp (archived f) st) = None
   \<and> disk (snd (extract_entry (\<lambda>call. None) lp (archived f) st))
       = (disk st)(fst (restored lp f) \<mapsto> snd (restored lp f))
   \<and> TransferProgress.ProcessedFiles (received (snd (extract_entry (\<lambda>call. None) lp (archived f) st)))
       = TransferProgress.ProcessedFiles (received st) + 1"
  by (cases f) (simp add: extract_entry_def archived_def restored_def Let_def)

lemma extract_all_archived:
  "fst (extract_entries (\<lambda>call. None) lp (map archived fs) None st) = None
   \<and> disk (snd (extract_entries (\<lambda>call. None) lp (map archived fs) None st))
       = fold (\<lambda>f d. d(fst (restored lp f) \<mapsto> snd (restored lp f))) fs (disk st)
   \<and> TransferProgress.ProcessedFiles
         (received (snd (extract_entries (\<lambda>call. None) lp (map archived fs) None st)))
       = TransferProgress.ProcessedFiles (received st) + int (length fs)"
proof (induction fs arbitrary: st)
  case Nil
  then show ?case by simp
next
  case (Cons f fs)
  obtain e st1 where x: "extract_entry (\<lambda>call. None) lp (archived f) st = (e, st1)"
    by (meson surj_pair)
  then have e: "e = None"
    and d: "disk st1 = (disk st)(fst (restored lp f) \<mapsto> snd (restored lp f))"
    and p: "TransferProgress.ProcessedFiles (received st1)
              = TransferProgress.ProcessedFiles (received st) + 1"
    using extract_archived [of lp f st] by simp_all
  show ?case using x e d p Cons.IH [of st1] by simp
qed

lemma fold_update_map_of:
  "fold (\<lambda>f d. d(fst (g f) \<mapsto> snd (g f))) fs d0 = d0 ++ map_of (rev (map g fs))"
proof (induction fs arbitrary: d0)
  case Nil
  then show ?case by simp
next
  case (Cons f fs)
  obtain k v where kv: "g f = (k, v)" by (meson surj_pair)
  have "fold (\<lambda>f d. d(fst (g f) \<mapsto> snd (g f))) (f # fs) d0
      = fold (\<lambda>f d. d(fst (g f) \<mapsto> snd (g f))) fs (d0(k \<mapsto> v))"
    using kv by simp
  also have "\<dots> = d0(k \<mapsto> v) ++ map_of (rev (map g fs))"
    using Cons.IH [of "d0(k \<mapsto> v)"] .
  also have "d0(k \<mapsto> v) = d0 ++ map_of [(k, v)]" by simp
  also have "(d0 ++ map_of [(k, v)]) ++ map_of (rev (map g fs))
      = d0 ++ (map_of [(k, v)] ++ map_of (rev (map g fs)))"
    by (simp only: map_add_assoc)
  also have "map_of [(k, v)] ++ map_of (rev (map g fs)) = map_of (rev (map g fs) @ [(k, v)])"
    by (rule map_of_append [symmetric])
  also have "rev (map g fs) @ [(k, v)] = rev (map g (f # fs))" using kv by simp
  finally show ?case .
qed

lemma map_of_rev_distinct: "distinct (map fst kvs) \<Longrightarrow> map_of (rev kvs) = map_of kvs"
proof -
  assume d: "distinct (map fst kvs)"
  then have "distinct (map fst (rev kvs))" by (simp add: rev_map [symmetric])
  then show ?thesis using d map_of_inject_set [of "rev kvs" kvs] by simp
qed

lemma tree_files_names:
  "regular_tree node \<Longrightarrow> (names, f) \<in> set (tree_files node) \<Longrightarrow>
     \<forall>n \<in> set names. valid_name n"
  "regular_entries entries \<Longrightarrow> (names, f) \<in> set (entries_files entries) \<Longrightarrow>
     names \<noteq> [] \<and> hd names \<in> fst ` set entries \<and> (\<forall>n \<in> set names. valid_name n)"
proof (induction node and entries arbitrary: names f and names f
    rule: regular_tree_regular_entries.induct)
  case (7 name node entries)
  show ?case
  proof (cases "(names, f) \<in> set (entries_files entries)")
    case True
    then show ?thesis using "7.IH"(2) [of names f] "7.prems"(1) by auto
  next
    case False
    then obtain ns where ns: "names = name # ns" "(ns, f) \<in> set (tree_files node)"
      using "7.prems"(2) by auto
    then have "\<forall>n \<in> set ns. valid_name n" using "7.IH"(1) [of ns f] "7.prems"(1) by simp
    then show ?thesis using ns "7.prems"(1) by simp
  qed
qed auto

lemma tree_files_distinct:
  "regular_tree node \<Longrightarrow> distinct (map fst (tree_files node))"
  "regular_entries entries \<Longrightarrow> distinct (map fst (entries_files entries))"
proof (induction node and entries rule: regular_tree_regular_entries.induct)
  case (7 name node entries)
  have a: "distinct (map fst (tree_files node))" "distinct (map fst (entries_files entries))"
    using 7 by simp_all
  have m: "map fst (map (\<lambda>(names, file). (name # names, file)) (tree_files node))
         = map ((#) name) (map fst (tree_files node))"
    by (simp add: case_prod_unfold)
  have d1: "distinct (map ((#) name) (map fst (tree_files node)))"
    using a(1) by (simp add: distinct_map inj_on_def)
  have re: "regular_entries entries" and nn: "name \<notin> fst ` set entries"
    using "7.prems" by simp_all
  have d2: "set (map ((#) name) (map fst (tree_files node)))
              \<inter> set (map fst (entries_files entries)) = {}"
  proof -
    have "False" if x1: "x \<in> set (map ((#) name) (map fst (tree_files node)))"
      and x2: "x \<in> set (map fst (entries_files entries))" for x
    proof -
      obtain ns where ns: "x = name # ns" using x1 by auto
      obtain f where "(x, f) \<in> set (entries_files entries)" using x2 by auto
      then have "hd x \<in> fst ` set entries" using tree_files_names(2) [OF re] by blast
      then show False using ns nn by simp
    qed
    then show ?thesis by blast
  qed
  have e: "map fst (entries_files ((name, node) # entries))
      = map ((#) name) (map fst (tree_files node)) @ map fst (entries_files entries)"
    by (simp only: entries_files.simps map_append m)
  show ?case unfolding e using d1 d2 a(2) by (simp only: distinct_append simp_thms)
qed auto


lemma Rel_base_clean: "Clean b = Clean b' \<Longrightarrow> Rel b t = Inr x \<Longrightarrow> Rel b' t = Inr x"
  by (simp add: Rel_def Let_def split: if_splits prod.splits list.splits)

lemma Rel_destination:
  assumes ne: "ns \<noteq> []" and vn: "\<forall>n \<in> set ns. valid_name n"
  shows "Rel lp (Join [lp, join_sep ns]) = Inr (join_sep ns)"
proof -
  let ?r = "is_rooted lp"
  let ?st = "if lp = [] then [] else clean_elems ?r (split_sep lp) []"
  have c: "clean_stack ?r ?st" using decode_base_clean .
  have "Clean lp = render ?r ?st"
  proof (cases "lp = []")
    case True
    then show ?thesis by (simp add: Clean_def render_def is_rooted_def)
  next
    case False
    then show ?thesis by (simp add: Clean_def)
  qed
  then have b: "Clean (render ?r ?st) = Clean lp" using Clean_render [OF c] by simp
  have "Rel (render ?r ?st) (render ?r (rev ns @ ?st)) = Inr (join_sep ns)"
    using Rel_walk [OF c ne vn] .
  then have "Rel lp (render ?r (rev ns @ ?st)) = Inr (join_sep ns)"
    using Rel_base_clean [OF b] by blast
  then show ?thesis using Join_decode [OF ne vn, of lp] by simp
qed

lemma map_of_content:
  "map_option content \<circ> map_of (map (restored lp) fs)
     = map_of (map (\<lambda>(names, bytes, mode, modified). (Join [lp, join_sep names], bytes)) fs)"
proof -
  have "map (\<lambda>(names, bytes, mode, modified). (Join [lp, join_sep names], bytes)) fs
      = map (\<lambda>(k, v). (k, content v)) (map (restored lp) fs)"
    by (simp add: restored_def case_prod_unfold)
  then show ?thesis by (simp only: map_of_map)
qed

text \<open>
  Claim C6, for the trees that consist of directories and regular files. Let the tree
  under the directory at \<open>fullPath\<close> (a path as \<^verbatim>\<open>filepath.Join\<close> returns it)
  consist of directories and regular files, with names that are valid and distinct
  within each directory. Then \<^verbatim>\<open>handleDirectoryDownload\<close> ends without an error, and
  decoding its response into a fresh destination \<open>localPath\<close>, on a file system where
  no call fails, ends without an error and leaves exactly one file for every regular
  file of the tree and nothing else: the files are at pairwise different paths, the
  path of each, taken relative to \<open>localPath\<close>, is the path of the file relative to the
  root of the tree, and its bytes are the bytes of the file. A directory gives no entry
  of the archive: the number of entries decoded is the number of regular files.
\<close>

theorem archive_round_trip:
  assumes "regular_tree (Directory entries)" and "Clean fullPath = fullPath"
  shows "\<exists>body st.
      handleDirectoryDownload fullPath (Directory entries) = (None, body, None)
      \<and> extract_entries (\<lambda>call. None) localPath body None empty_download = (None, st)
      \<and> map_option content \<circ> disk st
          = map_of (map (\<lambda>(names, bytes, mode, modified). (Join [localPath, join_sep names], bytes))
                      (tree_files (Directory entries)))
      \<and> distinct (map (\<lambda>(names, bytes, mode, modified). Join [localPath, join_sep names])
                     (tree_files (Directory entries)))
      \<and> (\<forall>f \<in> set (tree_files (Directory entries)).
            Rel localPath (Join [localPath, join_sep (fst f)]) = Inr (join_sep (fst f)))
      \<and> TransferProgress.ProcessedFiles (received st)
          = int (length (tree_files (Directory entries)))"
proof -
  let ?T = "Directory entries"
  let ?fs = "tree_files ?T"
  obtain r st0 where b: "clean_stack r st0" "fullPath = render r st0"
    using Clean_is_render [of fullPath] assms(2) by auto
  have w: "Walk (archive_entry fullPath) fullPath ?T \<lparr>written = [], missing = 0\<rparr>
      = (None, \<lparr>written = map archived ?fs, missing = 0\<rparr>)"
    using archive_walk(1) [OF assms(1) b(1), of "[]" "\<lparr>written = [], missing = 0\<rparr>"] b(2)
    by simp
  have h: "handleDirectoryDownload fullPath ?T = (None, map archived ?fs, None)"
    using w by (simp add: handleDirectoryDownload_def response_body_def)
  obtain e st where x: "extract_entries (\<lambda>call. None) localPath (map archived ?fs) None
      empty_download = (e, st)"
    by (meson surj_pair)
  have e: "e = None"
    and d: "disk st = fold (\<lambda>f d. d(fst (restored localPath f) \<mapsto> snd (restored localPath f)))
               ?fs (disk empty_download)"
    and p: "TransferProgress.ProcessedFiles (received st)
        = TransferProgress.ProcessedFiles (received empty_download) + int (length ?fs)"
    using extract_all_archived [of localPath ?fs empty_download] x by simp_all
  have names: "\<forall>f \<in> set ?fs. fst f \<noteq> [] \<and> (\<forall>n \<in> set (fst f). valid_name n)"
    using tree_files_names(2) [of entries] assms(1) by fastforce
  have dn: "distinct (map fst ?fs)" using tree_files_distinct(1) [OF assms(1)] .
  have inj: "inj_on (\<lambda>ns. Join [localPath, join_sep ns]) (set (map fst ?fs))"
    unfolding inj_on_def using names Join_decode_inj [of _ _ localPath] by auto
  have keys: "map fst (map (restored localPath) ?fs)
      = map (\<lambda>ns. Join [localPath, join_sep ns]) (map fst ?fs)"
    by (simp add: restored_def case_prod_unfold)
  have dk: "distinct (map fst (map (restored localPath) ?fs))"
    unfolding keys using dn inj by (simp only: distinct_map simp_thms)
  have "disk st = Map.empty ++ map_of (rev (map (restored localPath) ?fs))"
    using d fold_update_map_of [of "restored localPath" ?fs "Map.empty"]
    by (simp add: empty_download_def)
  then have dm: "disk st = map_of (map (restored localPath) ?fs)"
    using map_of_rev_distinct [OF dk] by simp
  have c1: "map_option content \<circ> disk st
          = map_of (map (\<lambda>(names, bytes, mode, modified). (Join [localPath, join_sep names], bytes)) ?fs)"
    unfolding dm using map_of_content .
  have c2: "distinct (map (\<lambda>(names, bytes, mode, modified). Join [localPath, join_sep names]) ?fs)"
    using dk by (simp add: restored_def case_prod_unfold comp_def)
  have c3: "\<forall>f \<in> set ?fs. Rel localPath (Join [localPath, join_sep (fst f)]) = Inr (join_sep (fst f))"
    using names Rel_destination by blast
  have c4: "TransferProgress.ProcessedFiles (received st) = int (length ?fs)"
    using p by (simp add: empty_download_def)
  show ?thesis using h x e c1 c2 c3 c4 by blast
qed

text \<open>
  The round trip of the tree with \<^verbatim>\<open>docs/readme.txt\<close> and \<^verbatim>\<open>docs/sub/img.bin\<close>,
  served from \<^verbatim>\<open>uploads\<close> and decoded into \<^verbatim>\<open>out\<close>.
\<close>

theorem archive_round_trip_witness:
  "regular_tree
     (Directory [(''docs'', Directory [(''readme.txt'', RegularFile ''hello world'' 420 7),
                                        (''sub'', Directory [(''img.bin'', RegularFile ''abcd'' 384 9)])])])
   \<and> Clean ''uploads'' = ''uploads''
   \<and> (\<exists>body st.
        handleDirectoryDownload ''uploads''
          (Directory [(''docs'', Directory [(''readme.txt'', RegularFile ''hello world'' 420 7),
                                             (''sub'', Directory [(''img.bin'', RegularFile ''abcd'' 384 9)])])])
          = (None, body, None)
        \<and> extract_entries (\<lambda>call. None) ''out'' body None empty_download = (None, st)
        \<and> map_option content (disk st ''out/docs/readme.txt'') = Some ''hello world''
        \<and> map_option content (disk st ''out/docs/sub/img.bin'') = Some ''abcd''
        \<and> map_option content (disk st ''out/docs'') = None
        \<and> TransferProgress.ProcessedFiles (received st) = 2)"
proof -
  let ?T = "Directory [(''docs'', Directory [(''readme.txt'', RegularFile ''hello world'' 420 7),
                                        (''sub'', Directory [(''img.bin'', RegularFile ''abcd'' 384 9)])])]"
  have h1: "regular_tree ?T" by (simp add: valid_name_def Separator_def)
  have h2: "Clean ''uploads'' = ''uploads''" by code_simp
  have m: "map (\<lambda>(names, bytes, mode, modified). (Join [''out'', join_sep names], bytes))
             (tree_files ?T)
      = [(''out/docs/readme.txt'', ''hello world''), (''out/docs/sub/img.bin'', ''abcd'')]"
    by code_simp
  have l: "int (length (tree_files ?T)) = 2" by simp
  from archive_round_trip [OF h1 h2, where localPath = "''out''"]
  obtain body where "\<exists>st.
      handleDirectoryDownload ''uploads'' ?T = (None, body, None)
      \<and> extract_entries (\<lambda>call. None) ''out'' body None empty_download = (None, st)
      \<and> map_option content \<circ> disk st
          = map_of (map (\<lambda>(names, bytes, mode, modified). (Join [''out'', join_sep names], bytes))
                      (tree_files ?T))
      \<and> distinct (map (\<lambda>(names, bytes, mode, modified). Join [''out'', join_sep names])
                     (tree_files ?T))
      \<and> (\<forall>f \<in> set (tree_files ?T).
            Rel ''out'' (Join [''out'', join_sep (fst f)]) = Inr (join_sep (fst f)))
      \<and> TransferProgress.ProcessedFiles (received st) = int (length (tree_files ?T))" ..
  then obtain st where r:
      "handleDirectoryDownload ''uploads'' ?T = (None, body, None)
      \<and> extract_entries (\<lambda>call. None) ''out'' body None empty_download = (None, st)
      \<and> map_option content \<circ> disk st
          = map_of (map (\<lambda>(names, bytes, mode, modified). (Join [''out'', join_sep names], bytes))
                      (tree_files ?T))
      \<and> distinct (map (\<lambda>(names, bytes, mode, modified). Join [''out'', join_sep names])
                     (tree_files ?T))
      \<and> (\<forall>f \<in> set (tree_files ?T).
            Rel ''out'' (Join [''out'', join_sep (fst f)]) = Inr (join_sep (fst f)))
      \<and> TransferProgress.ProcessedFiles (received st) = int (length (tree_files ?T))" ..
  have r1: "handleDirectoryDownload ''uploads'' ?T = (None, body, None)"
    using r by (rule conjunct1)
  have r2: "extract_entries (\<lambda>call. None) ''out'' body None empty_download = (None, st)"
    using r by (elim conjE)
  have r3: "map_option content \<circ> disk st
      = map_of [(''out/docs/readme.txt'', ''hello world''), (''out/docs/sub/img.bin'', ''abcd'')]"
    unfolding m [symmetric] using r by (elim conjE)
  have r4: "TransferProgress.ProcessedFiles (received st) = 2"
    unfolding l [symmetric] using r by (elim conjE)
  have a: "map_option content (disk st ''out/docs/readme.txt'') = Some ''hello world''"
    using fun_cong [OF r3, of "''out/docs/readme.txt''"] by simp
  have b: "map_option content (disk st ''out/docs/sub/img.bin'') = Some ''abcd''"
    using fun_cong [OF r3, of "''out/docs/sub/img.bin''"] by simp
  have c: "map_option content (disk st ''out/docs'') = None"
    using fun_cong [OF r3, of "''out/docs''"] by simp
  have "handleDirectoryDownload ''uploads'' ?T = (None, body, None)
        \<and> extract_entries (\<lambda>call. None) ''out'' body None empty_download = (None, st)
        \<and> map_option content (disk st ''out/docs/readme.txt'') = Some ''hello world''
        \<and> map_option content (disk st ''out/docs/sub/img.bin'') = Some ''abcd''
        \<and> map_option content (disk st ''out/docs'') = None
        \<and> TransferProgress.ProcessedFiles (received st) = 2"
    using r1 r2 a b c r4 by (intro conjI)
  then have "\<exists>body st. handleDirectoryDownload ''uploads'' ?T = (None, body, None)
        \<and> extract_entries (\<lambda>call. None) ''out'' body None empty_download = (None, st)
        \<and> map_option content (disk st ''out/docs/readme.txt'') = Some ''hello world''
        \<and> map_option content (disk st ''out/docs/sub/img.bin'') = Some ''abcd''
        \<and> map_option content (disk st ''out/docs'') = None
        \<and> TransferProgress.ProcessedFiles (received st) = 2"
    by (intro exI)
  then show ?thesis using h1 h2 by (intro conjI)
qed

text \<open>
  Claim C6 as stated, for every directory tree, does not hold: the walk skips
  directories only, so a symbolic link becomes an entry of the archive, with the size
  that \<^verbatim>\<open>Lstat\<close> reports for the link and the bytes read through it. With the
  regular file \<^verbatim>\<open>abc\<close> (bytes \<^verbatim>\<open>xyz\<close>) and the link \<^verbatim>\<open>link\<close> to it, the archive
  has two entries and the destination gets a second file \<^verbatim>\<open>out/link\<close>, where the
  tree has one regular file. With the link \<^verbatim>\<open>link\<close> to \<^verbatim>\<open>z\<close> (bytes \<^verbatim>\<open>zz\<close>,
  longer than the name of the target), writing the payload fails, the walk ends before
  it reaches \<^verbatim>\<open>z\<close>, the decoding of the response ends without an error, and the
  regular file \<^verbatim>\<open>z\<close> is not in the destination.
\<close>

theorem symbolic_link_breaks_round_trip:
  "tree_files (Directory [(''abc'', RegularFile ''xyz'' 420 0),
                          (''link'', Irregular 3 134218239 0 (Inr ''xyz''))])
     = [([''abc''], ''xyz'', 420, 0)]
   \<and> handleDirectoryDownload ''srv''
       (Directory [(''abc'', RegularFile ''xyz'' 420 0),
                   (''link'', Irregular 3 134218239 0 (Inr ''xyz''))])
     = (None,
        [\<lparr>header = \<lparr>Name = ''abc'', Size = 3, Mode = 420, ModTime = 0\<rparr>,
          payload = ''xyz'', payload_error = None\<rparr>,
         \<lparr>header = \<lparr>Name = ''link'', Size = 3, Mode = 134218239, ModTime = 0\<rparr>,
          payload = ''xyz'', payload_error = None\<rparr>], None)
   \<and> fst (extract_entries (\<lambda>call. None) ''out''
        [\<lparr>header = \<lparr>Name = ''abc'', Size = 3, Mode = 420, ModTime = 0\<rparr>,
          payload = ''xyz'', payload_error = None\<rparr>,
         \<lparr>header = \<lparr>Name = ''link'', Size = 3, Mode = 134218239, ModTime = 0\<rparr>,
          payload = ''xyz'', payload_error = None\<rparr>] None empty_download) = None
   \<and> map_option content (disk (snd (extract_entries (\<lambda>call. None) ''out''
        [\<lparr>header = \<lparr>Name = ''abc'', Size = 3, Mode = 420, ModTime = 0\<rparr>,
          payload = ''xyz'', payload_error = None\<rparr>,
         \<lparr>header = \<lparr>Name = ''link'', Size = 3, Mode = 134218239, ModTime = 0\<rparr>,
          payload = ''xyz'', payload_error = None\<rparr>] None empty_download)) ''out/link'')
     = Some ''xyz''
   \<and> tree_files (Directory [(''link'', Irregular 1 134218239 0 (Inr ''zz'')),
                             (''z'', RegularFile ''zz'' 420 0)])
     = [([''z''], ''zz'', 420, 0)]
   \<and> handleDirectoryDownload ''srv''
       (Directory [(''link'', Irregular 1 134218239 0 (Inr ''zz'')),
                   (''z'', RegularFile ''zz'' 420 0)])
     = (Some ''archive/tar: write too long'',
        [\<lparr>header = \<lparr>Name = ''link'', Size = 1, Mode = 134218239, ModTime = 0\<rparr>,
          payload = ''z'', payload_error = None\<rparr>], None)
   \<and> fst (extract_entries (\<lambda>call. None) ''out''
        [\<lparr>header = \<lparr>Name = ''link'', Size = 1, Mode = 134218239, ModTime = 0\<rparr>,
          payload = ''z'', payload_error = None\<rparr>] None empty_download) = None
   \<and> disk (snd (extract_entries (\<lambda>call. None) ''out''
        [\<lparr>header = \<lparr>Name = ''link'', Size = 1, Mode = 134218239, ModTime = 0\<rparr>,
          payload = ''z'', payload_error = None\<rparr>] None empty_download)) ''out/z'' = None"
  by code_simp

end
